theory Spec2Isabelle
  imports Complex_Main "HOL-Library.Word"
begin

section \<open>Shared Python values\<close>

text \<open>
  Exceptions of the Python sources are values: every function that can raise returns
  \<open>py_error + 'a\<close>, with \<open>Inl\<close> for the raised exception.
\<close>

datatype py_error =
    AssertionError
  | KeyError
  | IndexError
  | ValueError string
  | InvocationException string

type_synonym bytes = "8 word list"

section \<open>Peers\<close>

text \<open>
  Modelled from the spec: \<open>PeerNode\<close> (bndl/net/peer.py) is not among the sources. The
  fields are the attributes the sources read (\<open>name\<close>, \<open>node_type\<close>, \<open>ip_addresses\<close>,
  \<open>addresses\<close>, \<open>is_connected\<close>) together with the totally ordered tiebreak key of the
  spec's data model.
\<close>

record peer =
  p_name :: string
  p_node_type :: string
  p_addresses :: "string list"
  p_ip_addresses :: "string list"
  p_is_connected :: bool
  p_key :: nat

text \<open>
  Modelled from the spec: \<open>PeerNode.__lt__\<close> (bndl/net/peer.py) is not among the sources.
  The spec has the two connections of a contest compared by their tiebreak keys, and the
  lower key loses. \<open>_peer_connected\<close> lets the new peer lose when \<open>known_peer < peer\<close>, so
  \<open>a < b\<close> holds when the key of \<open>b\<close> is the lower one.
\<close>

definition peer_lt :: "peer \<Rightarrow> peer \<Rightarrow> bool" where
  "peer_lt a b = (p_key b < p_key a)"

section \<open>Block manager (bndl/rmi/blocks.py)\<close>

record block_spec =
  bs_seeder :: string
  bs_name :: string
  bs_num_blocks :: nat

text \<open>
  The state of a \<open>BlockManager\<close> mixed into a node: the node's name, the cache of block
  lists by name (a slot is \<open>None\<close> while its block is not downloaded yet) and the
  availability events by name (\<open>True\<close> when the \<open>threading.Event\<close> is set).
\<close>

record block_manager =
  bm_name :: string
  bm_ip_addresses :: "string list"
  bm_peers :: "string \<rightharpoonup> peer"
  blocks_cache :: "string \<rightharpoonup> bytes option list"
  available_events :: "string \<rightharpoonup> bool"

text \<open>
  \<open>int((length - 1) / block_size)\<close> and \<open>math.ceil(length / (parts + 1))\<close> divide in
  double precision and then truncate or round up. For operands below \<open>2 ^ 53\<close> the
  correctly rounded quotient has the same floor and ceiling as the exact one, so both are
  modelled on the exact quotient of natural numbers.
\<close>

definition py_int_div :: "nat \<Rightarrow> nat \<Rightarrow> nat" where
  "py_int_div a b = a div b"

definition py_ceil_div :: "nat \<Rightarrow> nat \<Rightarrow> nat" where
  "py_ceil_div a b = (a + b - 1) div b"

text \<open>
  The loop \<open>for _ in range(parts): blocks.append(data[offset:offset + step]); offset += step\<close>.
  A Python slice clamps at the end of the data, as \<open>take\<close> and \<open>drop\<close> do.
\<close>

fun split_loop :: "bytes \<Rightarrow> nat \<Rightarrow> nat \<Rightarrow> nat \<Rightarrow> bytes list \<Rightarrow> bytes list \<times> nat" where
  "split_loop data step 0 offset blocks = (blocks, offset)"
| "split_loop data step (Suc n) offset blocks =
     split_loop data step n (offset + step) (blocks @ [take step (drop offset data)])"

definition split_data :: "bytes \<Rightarrow> nat \<Rightarrow> bytes list" where
  "split_data data block_size =
     (let length = length data in
      if length > block_size then
        let parts = py_int_div (length - 1) block_size;
            step = py_ceil_div length (parts + 1);
            (blocks, offset) = split_loop data step parts 0 []
        in blocks @ [drop offset data]
      else [data])"

definition serve_blocks :: "string \<Rightarrow> bytes list \<Rightarrow> block_manager \<Rightarrow> block_spec \<times> block_manager" where
  "serve_blocks name blocks s =
     (let block_spec = \<lparr>bs_seeder = bm_name s, bs_name = name, bs_num_blocks = length blocks\<rparr>
      in (block_spec,
          s\<lparr>blocks_cache := (blocks_cache s)(name \<mapsto> map Some blocks),
            available_events := (available_events s)(name \<mapsto> True)\<rparr>))"

definition serve_data ::
  "string \<Rightarrow> bytes \<Rightarrow> nat \<Rightarrow> block_manager \<Rightarrow> py_error + block_spec \<times> block_manager" where
  "serve_data name data block_size s =
     (if \<not> block_size > 0 then Inl AssertionError
      else Inr (serve_blocks name (split_data data block_size) s))"


subsection \<open>Choosing the next block to download\<close>

text \<open>
  \<open>availability\<close> is a \<open>defaultdict(list)\<close>: the workers that advertise a block, keyed by
  block index, in the order in which the keys were first inserted.
\<close>

fun availability_append :: "(nat \<times> peer list) list \<Rightarrow> nat \<Rightarrow> peer \<Rightarrow> (nat \<times> peer list) list" where
  "availability_append [] idx w = [(idx, [w])]"
| "availability_append ((k, ws) # rest) idx w =
     (if k = idx then (k, ws @ [w]) # rest else (k, ws) # availability_append rest idx w)"

text \<open>
  The inner loop \<open>for idx in available_request.result(): if blocks[idx] is None: ...\<close>.
  An index beyond the list raises \<open>IndexError\<close>, which the enclosing \<open>except Exception\<close>
  catches: the rest of that response is dropped.
\<close>

fun collect_indices ::
  "bytes option list \<Rightarrow> peer \<Rightarrow> nat list \<Rightarrow> (nat \<times> peer list) list \<Rightarrow> (nat \<times> peer list) list" where
  "collect_indices blocks w [] availability = availability"
| "collect_indices blocks w (idx # rest) availability =
     (if idx < length blocks then
        (if blocks ! idx = None
         then collect_indices blocks w rest (availability_append availability idx w)
         else collect_indices blocks w rest availability)
      else availability)"

text \<open>
  The responses are the availability requests that completed before the deadline
  \<open>AVAILABILITY_TIMEOUT\<close>, in completion order, each with the worker it was sent to and either
  the exception of the request or the indices the worker advertises.
\<close>

fun collect_responses ::
  "bytes option list \<Rightarrow> (peer \<times> (py_error + nat list)) list \<Rightarrow> (nat \<times> peer list) list \<Rightarrow>
   (nat \<times> peer list) list" where
  "collect_responses blocks [] availability = availability"
| "collect_responses blocks ((w, Inl e) # rs) availability = collect_responses blocks rs availability"
| "collect_responses blocks ((w, Inr idxs) # rs) availability =
     collect_responses blocks rs (collect_indices blocks w idxs availability)"

text \<open>
  Python compares two lists at the first position where the elements are not equal, with
  \<open><\<close> of the elements there; if there is none, the shorter list is the smaller one. Peers
  are compared by value.
\<close>

fun py_list_lt :: "('a \<Rightarrow> 'a \<Rightarrow> bool) \<Rightarrow> 'a list \<Rightarrow> 'a list \<Rightarrow> bool" where
  "py_list_lt lt [] [] = False"
| "py_list_lt lt [] (y # ys) = True"
| "py_list_lt lt (x # xs) [] = False"
| "py_list_lt lt (x # xs) (y # ys) = (if x = y then py_list_lt lt xs ys else lt x y)"

text \<open>
  \<open>sorted(items, key=key, reverse=True)\<close>: a stable sort into descending order of the
  keys, items with equal keys staying in their original order. An item is inserted in
  front of the first item whose key is not greater than its own. Where \<open><\<close> orders the
  keys totally, as for peers with distinct tiebreak keys, every stable sort gives this list.
\<close>

fun insert_desc :: "('k \<Rightarrow> 'k \<Rightarrow> bool) \<Rightarrow> ('a \<Rightarrow> 'k) \<Rightarrow> 'a \<Rightarrow> 'a list \<Rightarrow> 'a list" where
  "insert_desc lt key x [] = [x]"
| "insert_desc lt key x (y # ys) =
     (if lt (key x) (key y) then y # insert_desc lt key x ys else x # y # ys)"

definition sorted_reverse :: "('k \<Rightarrow> 'k \<Rightarrow> bool) \<Rightarrow> ('a \<Rightarrow> 'k) \<Rightarrow> 'a list \<Rightarrow> 'a list" where
  "sorted_reverse lt key xs = foldr (insert_desc lt key) xs []"

text \<open>
  \<open>_next_download\<close>. The second argument of \<open>random.choice(remaining)\<close> is the draw \<open>r\<close>
  of the random generator: any element of the list can be chosen.
\<close>

definition random_choice :: "nat \<Rightarrow> 'a list \<Rightarrow> py_error + 'a" where
  "random_choice r xs = (if xs = [] then Inl IndexError else Inr (xs ! (r mod length xs)))"

definition next_download ::
  "block_manager \<Rightarrow> block_spec \<Rightarrow> (peer \<times> (py_error + nat list)) list \<Rightarrow> nat \<Rightarrow>
   py_error + nat \<times> peer list" where
  "next_download s block_spec responses r =
     (case blocks_cache s (bs_name block_spec) of
        None \<Rightarrow> Inl KeyError
      | Some blocks \<Rightarrow>
          (let availability = collect_responses blocks responses [] in
           case sorted_reverse (py_list_lt peer_lt) snd availability of
             item # _ \<Rightarrow> Inr item
           | [] \<Rightarrow>
               (let remaining = filter (\<lambda>idx. blocks ! idx = None) [0..<length blocks] in
                case random_choice r remaining of
                  Inl e \<Rightarrow> Inl e
                | Inr block_idx \<Rightarrow>
                    (case bm_peers s (bs_seeder block_spec) of
                       None \<Rightarrow> Inl KeyError
                     | Some seeder \<Rightarrow> Inr (block_idx, [seeder])))))"

subsection \<open>Downloading\<close>

text \<open>
  What the environment does during one round of the download loop: the availability
  responses, the random draws, and the outcome of each \<open>_get_block\<close> request, by attempt
  number within the round, source and block index.
\<close>

record round_env =
  responses :: "(peer \<times> (py_error + nat list)) list"
  choice :: nat
  pick :: "nat \<Rightarrow> nat"
  fetch :: "nat \<Rightarrow> peer \<Rightarrow> nat \<Rightarrow> py_error + bytes"

text \<open>
  The local function \<open>download(source)\<close>:
  \<open>blocks[idx] = source._get_block(name, idx).result().block\<close>.
\<close>

definition download_block ::
  "py_error + bytes \<Rightarrow> nat \<Rightarrow> bytes option list \<Rightarrow> py_error + bytes option list" where
  "download_block fetched idx blocks =
     (case fetched of
        Inl e \<Rightarrow> Inl e
      | Inr block \<Rightarrow> if idx < length blocks then Inr (blocks[idx := Some block]) else Inl IndexError)"

text \<open>
  The loop \<open>while local or remote\<close>: a random candidate, local ones first, is removed from
  its list and tried; any exception moves on to the next candidate. The result is the
  block list after a successful download, or \<open>None\<close> when the loop ran out of candidates
  (the \<open>else\<close> of the \<open>while\<close>), together with the number of attempts made.
\<close>

function try_candidates ::
  "round_env \<Rightarrow> nat \<Rightarrow> peer list \<Rightarrow> peer list \<Rightarrow> nat \<Rightarrow> bytes option list \<Rightarrow>
   bytes option list option \<times> nat" where
  "try_candidates env a local remote idx blocks =
     (if local = [] \<and> remote = [] then (None, a)
      else
        (let candidates = (if local \<noteq> [] then local else remote);
             source = candidates ! (pick env a mod length candidates);
             local' = (if local \<noteq> [] then remove1 source local else local);
             remote' = (if local \<noteq> [] then remote else remove1 source remote)
         in case download_block (fetch env a source idx) idx blocks of
              Inr blocks' \<Rightarrow> (Some blocks', Suc a)
            | Inl e \<Rightarrow> try_candidates env (Suc a) local' remote' idx blocks))"
  by pat_completeness auto
termination
proof (relation "measure (\<lambda>(env, a, local, remote, idx, blocks). length local + length remote)")
  show "wf (measure (\<lambda>(env, a, local, remote, idx, blocks). length local + length remote))"
    by simp
next
  fix env :: round_env and a :: nat and local remote :: "peer list" and idx :: nat
    and blocks :: "bytes option list" and candidates source local' remote' e
  assume ne: "\<not> (local = [] \<and> remote = [])"
    and c: "candidates = (if local \<noteq> [] then local else remote)"
    and s: "source = candidates ! (pick env a mod length candidates)"
    and l: "local' = (if local \<noteq> [] then remove1 source local else local)"
    and r: "remote' = (if local \<noteq> [] then remote else remove1 source remote)"
  from ne c have "candidates \<noteq> []" by auto
  then have "source \<in> set candidates" using s by simp
  then have "length (remove1 source candidates) < length candidates"
    using length_pos_if_in_set[of source candidates] by (simp add: length_remove1)
  then show "((env, Suc a, local', remote', idx, blocks), env, a, local, remote, idx, blocks)
    \<in> measure (\<lambda>(env, a, local, remote, idx, blocks). length local + length remote)"
    using c l r by (auto split: if_splits)
qed

text \<open>
  Modelled from the spec: \<open>split\<close> (bndl/util/collection.py) is not among the sources. The
  candidates are split into the local ones, which share at least one IP address with this
  node, and the remote ones.
\<close>

definition is_local :: "block_manager \<Rightarrow> peer \<Rightarrow> bool" where
  "is_local s c = (\<exists>ip \<in> set (p_ip_addresses c). ip \<in> set (bm_ip_addresses s))"

text \<open>One iteration of \<open>for _ in blocks\<close> in \<open>_download\<close>.\<close>

definition download_round ::
  "round_env \<Rightarrow> block_manager \<Rightarrow> block_spec \<Rightarrow> py_error option \<times> block_manager" where
  "download_round env s block_spec =
     (case next_download s block_spec (responses env) (choice env) of
        Inl e \<Rightarrow> (Some e, s)
      | Inr (idx, candidates) \<Rightarrow>
          (case blocks_cache s (bs_name block_spec) of
             None \<Rightarrow> (Some KeyError, s)
           | Some blocks \<Rightarrow>
               (let local = filter (is_local s) candidates;
                    remote = filter (\<lambda>c. \<not> is_local s c) candidates
                in case try_candidates env 0 local remote idx blocks of
                     (Some blocks', _) \<Rightarrow>
                       (None, s\<lparr>blocks_cache := (blocks_cache s)(bs_name block_spec \<mapsto> blocks')\<rparr>)
                   | (None, a) \<Rightarrow>
                       (case bm_peers s (bs_seeder block_spec) of
                          None \<Rightarrow> (Some KeyError, s)
                        | Some seeder \<Rightarrow>
                            (case download_block (fetch env a seeder idx) idx blocks of
                               Inl e \<Rightarrow> (Some e, s)
                             | Inr blocks' \<Rightarrow>
                                 (None, s\<lparr>blocks_cache :=
                                    (blocks_cache s)(bs_name block_spec \<mapsto> blocks')\<rparr>))))))"

text \<open>
  The state after the first \<open>k\<close> iterations of the loop, with the exception that ended it
  if there was one. The list \<open>blocks\<close> of the source is the list object stored in the cache,
  so every write to a slot is a write to the cache entry.
\<close>

fun download_rounds ::
  "(nat \<Rightarrow> round_env) \<Rightarrow> block_spec \<Rightarrow> nat \<Rightarrow> block_manager \<Rightarrow> py_error option \<times> block_manager" where
  "download_rounds env block_spec 0 s = (None, s)"
| "download_rounds env block_spec (Suc k) s =
     (case download_rounds env block_spec k s of
        (Some e, s') \<Rightarrow> (Some e, s')
      | (None, s') \<Rightarrow> download_round (env k) s' block_spec)"

definition download_start :: "block_manager \<Rightarrow> block_spec \<Rightarrow> block_manager" where
  "download_start s block_spec =
     s\<lparr>blocks_cache := (blocks_cache s)(bs_name block_spec \<mapsto> replicate (bs_num_blocks block_spec) None)\<rparr>"

definition download ::
  "(nat \<Rightarrow> round_env) \<Rightarrow> block_manager \<Rightarrow> block_spec \<Rightarrow> py_error option \<times> block_manager" where
  "download env s block_spec =
     (if \<not> bs_seeder block_spec \<noteq> bm_name s then (Some AssertionError, s)
      else download_rounds env block_spec (bs_num_blocks block_spec) (download_start s block_spec))"

text \<open>
  \<open>get_blocks\<close> either returns a value, raises, or never returns: waiting on an event that
  is registered but not set blocks the caller until another thread sets it.
\<close>

datatype 'a outcome = Returns 'a | Raises py_error | Blocks

definition cache_lookup :: "block_manager \<Rightarrow> string \<Rightarrow> bytes option list outcome" where
  "cache_lookup s name = (case blocks_cache s name of None \<Rightarrow> Raises KeyError | Some blocks \<Rightarrow> Returns blocks)"

definition get_blocks ::
  "(nat \<Rightarrow> round_env) \<Rightarrow> block_manager \<Rightarrow> block_spec \<Rightarrow> bytes option list outcome \<times> block_manager" where
  "get_blocks env s block_spec =
     (let name = bs_name block_spec in
      case available_events s name of
        Some is_set \<Rightarrow> (if is_set then cache_lookup s name else Blocks, s)
      | None \<Rightarrow>
          (let s1 = s\<lparr>available_events := (available_events s)(name \<mapsto> False)\<rparr> in
           case download env s1 block_spec of
             (Some e, s2) \<Rightarrow> (Raises e, s2)
           | (None, s2) \<Rightarrow>
               (let s3 = s2\<lparr>available_events := (available_events s2)(name \<mapsto> True)\<rparr>
                in (cache_lookup s3 name, s3))))"

declare try_candidates.simps [simp del]

subsection \<open>Predicates used in the statements about downloads\<close>

text \<open>The indices in \<open>ks\<close> are slots of \<open>blocks\<close> that are still empty.\<close>

definition keys_missing :: "bytes option list \<Rightarrow> nat set \<Rightarrow> bool" where
  "keys_missing blocks ks = (\<forall>k \<in> ks. k < length blocks \<and> blocks ! k = None)"

text \<open>The number of empty slots of a block list.\<close>

definition missing :: "bytes option list \<Rightarrow> nat" where
  "missing blocks = length (filter (\<lambda>b. b = None) blocks)"

text \<open>
  The seeder holds all \<open>n\<close> blocks: in every round and at every attempt, a \<open>_get_block\<close>
  request to the seeder for an index below \<open>n\<close> returns a block.
\<close>

definition seeder_holds :: "(nat \<Rightarrow> round_env) \<Rightarrow> peer \<Rightarrow> nat \<Rightarrow> bool" where
  "seeder_holds env seeder n =
     (\<forall>i a idx. idx < n \<longrightarrow> (\<exists>block. fetch (env i) a seeder idx = Inr block))"

text \<open>
  The blocks named by a block spec are available: the event is set and the cache entry has
  the advertised number of slots, none of them empty.
\<close>

definition entry_complete :: "block_manager \<Rightarrow> block_spec \<Rightarrow> bool" where
  "entry_complete s block_spec =
     (available_events s (bs_name block_spec) = Some True \<and>
      (\<exists>blocks. blocks_cache s (bs_name block_spec) = Some blocks \<and>
         length blocks = bs_num_blocks block_spec \<and> None \<notin> set blocks))"

subsection \<open>A concrete node, seeder and environment\<close>

text \<open>
  A node \<open>n\<close> that knows the seeder \<open>seed\<close> of a set of two blocks. In every round one
  worker, which is gone, advertises block 1; only the seeder answers \<open>_get_block\<close>.
\<close>

definition example_seeder :: peer where
  "example_seeder = \<lparr>p_name = ''seed'', p_node_type = ''driver'', p_addresses = [],
     p_ip_addresses = [''10.0.0.2''], p_is_connected = True, p_key = 0\<rparr>"

definition example_worker :: "nat \<Rightarrow> peer" where
  "example_worker k = \<lparr>p_name = ''w'', p_node_type = ''worker'', p_addresses = [],
     p_ip_addresses = [''10.0.0.3''], p_is_connected = True, p_key = k\<rparr>"

definition example_manager :: block_manager where
  "example_manager = \<lparr>bm_name = ''n'', bm_ip_addresses = [''10.0.0.1''],
     bm_peers = [''seed'' \<mapsto> example_seeder], blocks_cache = Map.empty,
     available_events = Map.empty\<rparr>"

definition example_spec :: block_spec where
  "example_spec = \<lparr>bs_seeder = ''seed'', bs_name = ''x'', bs_num_blocks = 2\<rparr>"

definition example_env :: "nat \<Rightarrow> round_env" where
  "example_env i = \<lparr>responses = [(example_worker 1, Inr [1])], choice = 0, pick = (\<lambda>a. 0),
     fetch = (\<lambda>a p idx. if p_name p = ''seed'' then Inr [of_nat idx]
                          else Inl (InvocationException ''gone''))\<rparr>"

section \<open>Node (bndl/net/node.py)\<close>

text \<open>
  The peer table maps names to \<open>PeerNode\<close> objects. The objects are shared: the table, the
  caller and the node all hold references to them, so they live in a store, indexed by
  object identity. \<open>disconnects\<close> logs the calls of \<open>disconnect\<close> with their reasons,
  \<open>iotasks\<close> the notification tasks created (by the peer they announce), \<open>removed\<close> the
  socket files removed.
\<close>

record node =
  n_name :: string
  servers :: "string \<rightharpoonup> nat option"
  n_peers :: "string \<rightharpoonup> nat"
  objects :: "nat \<Rightarrow> peer"
  disconnects :: "(nat \<times> string) list"
  iotasks :: "nat list"
  removed :: "string list"

subsection \<open>Starting the servers\<close>

text \<open>
  The result of \<open>urlparse(address)\<close> (bndl/net/connection.py is not among the sources, so
  the parser is a parameter of \<open>start_server\<close>).
\<close>

record parsed_url =
  u_scheme :: string
  u_hostname :: string
  u_port :: "nat option"
  u_path :: string

text \<open>
  What the operating system answers: \<open>asyncio.start_server\<close> returns a server, or raises
  \<open>OSError\<close> with \<open>errno.EADDRINUSE\<close> or with another error number;
  \<open>asyncio.start_unix_server\<close> returns a server or raises.
\<close>

datatype bind_result = Bound nat | AddrInUse | OtherOSError

record os_env =
  bind_tcp :: "string \<Rightarrow> nat \<Rightarrow> bind_result"
  bind_unix :: "string \<Rightarrow> py_error + nat"
  path_exists :: "string \<Rightarrow> bool"

text \<open>\<open>'%s' % port\<close>: the decimal digits of a natural number.\<close>

fun str_nat :: "nat \<Rightarrow> string" where
  "str_nat n =
     (if n < 10 then [char_of (48 + n)] else str_nat (n div 10) @ [char_of (48 + n mod 10)])"

declare str_nat.simps [simp del]

text \<open>
  The loop \<open>for port in range(port, port + 1000)\<close> with \<open>count\<close> ports left to try. It
  stops at the first port that binds; an \<open>OSError\<close> of either kind moves on to the next
  port (one that is not \<open>EADDRINUSE\<close> is logged first). The result is the server, if any,
  and the last value of the loop variable \<open>port\<close>.
\<close>

fun tcp_probe :: "(string \<Rightarrow> nat \<Rightarrow> bind_result) \<Rightarrow> string \<Rightarrow> nat \<Rightarrow> nat \<Rightarrow> nat option \<times> nat" where
  "tcp_probe bind host port 0 = (None, port)"
| "tcp_probe bind host port (Suc count) =
     (case bind host port of
        Bound server \<Rightarrow> (Some server, port)
      | AddrInUse \<Rightarrow> if count = 0 then (None, port) else tcp_probe bind host (Suc port) count
      | OtherOSError \<Rightarrow> if count = 0 then (None, port) else tcp_probe bind host (Suc port) count)"

text \<open>The first port tried, \<open>parsed.port or 5000\<close>: a port \<open>0\<close> is false in Python.\<close>

definition first_port :: "parsed_url \<Rightarrow> nat" where
  "first_port parsed = (case u_port parsed of None \<Rightarrow> 5000 | Some p \<Rightarrow> if p = 0 then 5000 else p)"

text \<open>
  \<open>_start_tcp_server\<close>. Without a server it returns and leaves the node as it is. When
  the bound port is not the configured one, the configured address is deleted from
  \<open>servers\<close> and the server is registered under the address with the bound port.
\<close>

definition start_tcp_server :: "os_env \<Rightarrow> node \<Rightarrow> string \<Rightarrow> parsed_url \<Rightarrow> py_error + node" where
  "start_tcp_server env s address parsed =
     (let host = u_hostname parsed;
          port = first_port parsed;
          (server, port) = tcp_probe (bind_tcp env) host port 1000
      in case server of
           None \<Rightarrow> Inr s
         | Some srv \<Rightarrow>
             if u_port parsed \<noteq> Some port then
               (case servers s address of
                  None \<Rightarrow> Inl KeyError
                | Some _ \<Rightarrow>
                    Inr (s\<lparr>servers := ((servers s)(address := None))
                              (''tcp://'' @ host @ '':'' @ str_nat port \<mapsto> Some srv)\<rparr>))
             else Inr (s\<lparr>servers := (servers s)(address \<mapsto> Some srv)\<rparr>))"

definition start_unix_server :: "os_env \<Rightarrow> node \<Rightarrow> string \<Rightarrow> parsed_url \<Rightarrow> py_error + node" where
  "start_unix_server env s address parsed =
     (let s1 = (if path_exists env (u_path parsed)
                then s\<lparr>removed := removed s @ [u_path parsed]\<rparr> else s)
      in case bind_unix env (u_path parsed) of
           Inl e \<Rightarrow> Inl e
         | Inr srv \<Rightarrow> Inr (s1\<lparr>servers := (servers s1)(address \<mapsto> Some srv)\<rparr>))"

definition start_server ::
  "(string \<Rightarrow> parsed_url) \<Rightarrow> os_env \<Rightarrow> node \<Rightarrow> string \<Rightarrow> py_error + node" where
  "start_server urlparse env s address =
     (let parsed = urlparse address in
      if u_scheme parsed = ''tcp'' then start_tcp_server env s address parsed
      else if u_scheme parsed = ''unix'' then start_unix_server env s address parsed
      else Inl (ValueError (''unsupported scheme '' @ u_scheme parsed @ '' in address '' @ address)))"

subsection \<open>A peer has connected\<close>

text \<open>
  Modelled from the spec: \<open>PeerNode.disconnect\<close> (bndl/net/peer.py) is not among the
  sources. Disconnecting closes the connection of the peer object, which is not connected
  afterwards; its entry in the peer table stays.
\<close>

definition peer_disconnect :: "node \<Rightarrow> nat \<Rightarrow> string \<Rightarrow> node" where
  "peer_disconnect s peer reason =
     s\<lparr>objects := (objects s)(peer := (objects s peer)\<lparr>p_is_connected := False\<rparr>),
       disconnects := disconnects s @ [(peer, reason)]\<rparr>"

text \<open>
  The end of \<open>_peer_connected\<close>: \<open>self.peers[peer.name] = peer\<close>, and the task that
  notifies the peers is created and appended to \<open>_iotasks\<close>.
\<close>

definition install_peer :: "node \<Rightarrow> nat \<Rightarrow> node" where
  "install_peer s peer =
     s\<lparr>n_peers := (n_peers s)(p_name (objects s peer) \<mapsto> peer), iotasks := iotasks s @ [peer]\<rparr>"

text \<open>
  \<open>_peer_connected\<close> returns \<open>True\<close> after installing the peer and \<open>None\<close> from the two
  early returns.
\<close>

definition peer_connected :: "node \<Rightarrow> nat \<Rightarrow> py_error + bool option \<times> node" where
  "peer_connected s peer =
     (case n_peers s (p_name (objects s peer)) of
        Some known_peer \<Rightarrow>
          if \<not> p_is_connected (objects s peer) then Inl AssertionError
          else if n_name s = p_name (objects s peer) then
            Inr (None, peer_disconnect s peer ''self connect'')
          else if p_is_connected (objects s known_peer)
                  \<and> peer_lt (objects s known_peer) (objects s peer) then
            Inr (None, peer_disconnect s peer ''already connected, old connection wins'')
          else
            (let s1 = peer_disconnect s known_peer ''already connected, new connection wins'';
                 s2 = s1\<lparr>n_peers := (n_peers s1)(p_name (objects s1 peer) := None)\<rparr>
             in Inr (Some True, install_peer s2 peer))
      | None \<Rightarrow> Inr (Some True, install_peer s peer))"

text \<open>
  A node \<open>n\<close> and peer objects: object 1 is the connected peer \<open>r\<close> in the table, with key
  1; object 2 is a second connection of \<open>r\<close>, with key 2; object 3 is a connection whose
  remote end gave the node's own name.
\<close>

definition example_objects :: "nat \<Rightarrow> peer" where
  "example_objects i =
     \<lparr>p_name = (if i = 3 then ''n'' else ''r''), p_node_type = ''worker'', p_addresses = [],
      p_ip_addresses = [], p_is_connected = True, p_key = i\<rparr>"

definition example_node :: "(string \<rightharpoonup> nat) \<Rightarrow> node" where
  "example_node table =
     \<lparr>n_name = ''n'', servers = [''tcp://h:5000'' \<mapsto> None], n_peers = table,
      objects = example_objects, disconnects = [], iotasks = [], removed = []\<rparr>"

definition example_os :: os_env where
  "example_os = \<lparr>bind_tcp = (\<lambda>host port. AddrInUse), bind_unix = (\<lambda>path. Inr 0),
     path_exists = (\<lambda>path. False)\<rparr>"

definition example_urlparse :: "string \<Rightarrow> parsed_url" where
  "example_urlparse address =
     (if address = ''tcp://h:5000''
      then \<lparr>u_scheme = ''tcp'', u_hostname = ''h'', u_port = Some 5000, u_path = []\<rparr>
      else \<lparr>u_scheme = ''http'', u_hostname = ''h'', u_port = None, u_path = []\<rparr>)"

section \<open>Job scheduler (bndl/execute/job.py)\<close>

subsection \<open>Eager execution of a stage\<close>

text \<open>
  A worker is identified by its name. A task carries its placement hints; \<open>None\<close> is
  Python's \<open>None\<close>. The task objects of a stage are referred to by their index in
  \<open>self.tasks\<close>, and the attribute \<open>task.future\<close> of the task with index \<open>i\<close> is the entry
  \<open>i\<close> of the map \<open>futures\<close>.
\<close>

type_synonym worker = string

record task =
  preferred_workers :: "worker list option"
  allowed_workers :: "worker list option"

text \<open>
  The future returned by \<open>worker.run_task\<close>: the worker it runs on, its outcome once it is
  done, and how far its done-callback \<open>task_done\<close> has run. The callback first releases a
  permit of the semaphore and then removes the worker from \<open>occupied\<close>; it runs in the
  thread that completes the future, so the scheduling thread can run between the two.
\<close>

datatype callback = NotCalled | Released | Removed

record 'r future =
  fut_worker :: worker
  fut_result :: "(py_error + 'r) option"
  fut_callback :: callback

text \<open>
  The main thread is either at the head of \<open>while to_yield\<close> or in front of the statement
  \<open>if to_yield[-1].future\<close>; between the two it may block in \<open>workers_available.acquire()\<close>,
  and in the second half in \<open>result()\<close>.
\<close>

datatype position = LoopHead | YieldCheck

text \<open>
  The local variables of \<open>_execute_eagerly\<close>, the results yielded so far and the exception
  raised out of the generator, if any. The Python lists are kept in their own order:
  \<open>pop()\<close> takes the last element, \<open>insert(0, task)\<close> adds in front.
\<close>

record 'r eager =
  occupied :: "worker set"
  workers_available :: nat
  to_schedule :: "nat list"
  to_yield :: "nat list"
  task_counts :: "worker \<Rightarrow> nat"
  futures :: "nat \<rightharpoonup> 'r future"
  yielded :: "'r list"
  raised :: "py_error option"
  position :: position

definition init_eager :: "worker list \<Rightarrow> task list \<Rightarrow> 'r eager" where
  "init_eager workers tasks =
     \<lparr>occupied = {}, workers_available = length workers,
      to_schedule = rev [0..<length tasks], to_yield = rev [0..<length tasks],
      task_counts = (\<lambda>w. 0), futures = Map.empty, yielded = [], raised = None,
      position = LoopHead\<rparr>"

text \<open>\<open>xs or d\<close> for a list or \<open>None\<close>: the default when \<open>xs\<close> is \<open>None\<close> or empty.\<close>

definition py_or :: "'a list option \<Rightarrow> 'a list \<Rightarrow> 'a list" where
  "py_or xs d = (case xs of None \<Rightarrow> d | Some ys \<Rightarrow> if ys = [] then d else ys)"

text \<open>
  The \<open>for worker in chain.from_iterable(...)\<close> loop: the first candidate that is not
  occupied, or \<open>None\<close>.
\<close>

definition choose_worker :: "worker list \<Rightarrow> task \<Rightarrow> worker set \<Rightarrow> worker option" where
  "choose_worker workers t occ =
     find (\<lambda>worker. worker \<notin> occ)
       (py_or (preferred_workers t) [] @ py_or (allowed_workers t) workers)"

definition start_task :: "worker \<Rightarrow> nat \<Rightarrow> 'r eager \<Rightarrow> 'r eager" where
  "start_task worker t s =
     s\<lparr>occupied := insert worker (occupied s),
       task_counts := (task_counts s)(worker := task_counts s worker + 1),
       futures := (futures s)(t \<mapsto> \<lparr>fut_worker = worker, fut_result = None, fut_callback = NotCalled\<rparr>)\<rparr>"

text \<open>The two statements of \<open>task_done\<close>.\<close>

definition task_done_release :: "'r eager \<Rightarrow> 'r eager" where
  "task_done_release s = s\<lparr>workers_available := workers_available s + 1\<rparr>"

definition task_done_remove :: "worker \<Rightarrow> 'r eager \<Rightarrow> 'r eager" where
  "task_done_remove worker s = s\<lparr>occupied := occupied s - {worker}\<rparr>"

text \<open>
  The first half of the loop body, \<open>if to_schedule: ...\<close>. The thread cannot proceed
  (\<open>None\<close>) while the semaphore has no permit. A task for which no worker is free goes back
  to the front of \<open>to_schedule\<close>; the permit stays taken.
\<close>

definition schedule_step :: "worker list \<Rightarrow> task list \<Rightarrow> 'r eager \<Rightarrow> 'r eager option" where
  "schedule_step workers tasks s =
     (if to_schedule s = [] then Some (s\<lparr>position := YieldCheck\<rparr>)
      else if workers_available s = 0 then None
      else
        (let s1 = s\<lparr>workers_available := workers_available s - 1,
                     to_schedule := butlast (to_schedule s)\<rparr>;
             t = last (to_schedule s)
         in case choose_worker workers (tasks ! t) (occupied s1) of
              Some worker \<Rightarrow> Some ((start_task worker t s1)\<lparr>position := YieldCheck\<rparr>)
            | None \<Rightarrow> Some (s1\<lparr>to_schedule := t # to_schedule s1, position := YieldCheck\<rparr>)))"

text \<open>
  \<open>yield to_yield.pop().result()\<close> for a future that is done: the task leaves \<open>to_yield\<close>,
  and its result is yielded or its exception is raised out of the generator.
\<close>

definition deliver :: "py_error + 'r \<Rightarrow> 'r eager \<Rightarrow> 'r eager" where
  "deliver res s =
     (case res of
        Inr v \<Rightarrow> s\<lparr>to_yield := butlast (to_yield s), yielded := yielded s @ [v],
                   position := LoopHead\<rparr>
      | Inl e \<Rightarrow> s\<lparr>to_yield := butlast (to_yield s), raised := Some e, position := LoopHead\<rparr>)"

text \<open>
  The second half of the loop body. With tasks left to schedule the head of \<open>to_yield\<close>
  is yielded only if it is done; with none left the thread waits in \<open>result()\<close>, so it
  cannot proceed (\<open>None\<close>) until the future is done.
\<close>

definition yield_step :: "'r eager \<Rightarrow> 'r eager option" where
  "yield_step s =
     (case futures s (last (to_yield s)) of
        None \<Rightarrow> Some (s\<lparr>position := LoopHead\<rparr>)
      | Some f \<Rightarrow>
          if to_schedule s \<noteq> [] then
            (case fut_result f of
               None \<Rightarrow> Some (s\<lparr>position := LoopHead\<rparr>)
             | Some res \<Rightarrow> Some (deliver res s))
          else
            (case fut_result f of
               None \<Rightarrow> None
             | Some res \<Rightarrow> Some (deliver res s)))"

text \<open>
  What can happen next. \<open>Main\<close> is the next half of the loop body in the scheduling thread;
  it is not possible after the loop has ended or an exception was raised. \<open>Complete t res\<close>
  is the pending future of task \<open>t\<close> becoming done with outcome \<open>res\<close>; \<open>Release t\<close> and
  \<open>Remove t\<close> are the two statements of the done-callback \<open>task_done\<close> of that future.
  These happen in other threads, at any time and in any order among the tasks.
\<close>

datatype 'r action = Main | Complete nat "py_error + 'r" | Release nat | Remove nat

definition eager_step :: "worker list \<Rightarrow> task list \<Rightarrow> 'r action \<Rightarrow> 'r eager \<Rightarrow> 'r eager option" where
  "eager_step workers tasks a s =
     (case a of
        Main \<Rightarrow>
          if raised s \<noteq> None \<or> to_yield s = [] then None
          else (case position s of
                  LoopHead \<Rightarrow> schedule_step workers tasks s
                | YieldCheck \<Rightarrow> yield_step s)
      | Complete t res \<Rightarrow>
          (case futures s t of
             None \<Rightarrow> None
           | Some f \<Rightarrow>
               if fut_result f = None
               then Some (s\<lparr>futures := (futures s)(t \<mapsto> f\<lparr>fut_result := Some res\<rparr>)\<rparr>)
               else None)
      | Release t \<Rightarrow>
          (case futures s t of
             None \<Rightarrow> None
           | Some f \<Rightarrow>
               if fut_result f \<noteq> None \<and> fut_callback f = NotCalled
               then Some ((task_done_release s)
                            \<lparr>futures := (futures s)(t \<mapsto> f\<lparr>fut_callback := Released\<rparr>)\<rparr>)
               else None)
      | Remove t \<Rightarrow>
          (case futures s t of
             None \<Rightarrow> None
           | Some f \<Rightarrow>
               if fut_callback f = Released
               then Some ((task_done_remove (fut_worker f) s)
                            \<lparr>futures := (futures s)(t \<mapsto> f\<lparr>fut_callback := Removed\<rparr>)\<rparr>)
               else None))"

text \<open>A run: the state after a sequence of actions, if each was possible in turn.\<close>

fun eager_run :: "worker list \<Rightarrow> task list \<Rightarrow> 'r action list \<Rightarrow> 'r eager \<Rightarrow> 'r eager option" where
  "eager_run workers tasks [] s = Some s"
| "eager_run workers tasks (a # as) s =
     (case eager_step workers tasks a s of None \<Rightarrow> None | Some s' \<Rightarrow> eager_run workers tasks as s')"

text \<open>The generator has returned: the loop has ended and nothing was raised.\<close>

definition finished :: "'r eager \<Rightarrow> bool" where
  "finished s = (to_yield s = [] \<and> raised s = None \<and> position s = LoopHead)"

text \<open>The outcomes with which the future of task \<open>t\<close> completed during a run.\<close>

fun completions :: "'r action list \<Rightarrow> nat \<Rightarrow> (py_error + 'r) list" where
  "completions [] t = []"
| "completions (Complete t' res # as) t = (if t' = t then res # completions as t else completions as t)"
| "completions (Main # as) t = completions as t"
| "completions (Release t' # as) t = completions as t"
| "completions (Remove t' # as) t = completions as t"

text \<open>
  The schedule in which every task is started, completes with the result \<open>res t\<close>, has
  its callback run and is yielded before the next one starts.
\<close>

definition one_by_one :: "(nat \<Rightarrow> 'r) \<Rightarrow> nat \<Rightarrow> 'r action list" where
  "one_by_one res n = concat (map (\<lambda>t. [Main, Complete t (Inr (res t)), Release t, Remove t, Main]) [0..<n])"

subsection \<open>Predicates used in the statements about eager execution\<close>

text \<open>The outcomes a future has had: none while it is absent or pending.\<close>

definition outcomes :: "'r future option \<Rightarrow> (py_error + 'r) list" where
  "outcomes fo = (case fo of None \<Rightarrow> [] | Some f \<Rightarrow> (case fut_result f of None \<Rightarrow> [] | Some res \<Rightarrow> [res]))"

text \<open>The number of tasks that have left \<open>to_yield\<close>.\<close>

definition consumed :: "'r eager \<Rightarrow> nat" where
  "consumed s = length (yielded s) + (case raised s of None \<Rightarrow> 0 | Some e \<Rightarrow> 1)"

text \<open>
  What holds of every state that a run reaches from the initial state by the actions
  \<open>acts\<close>: \<open>to_yield\<close> holds the tasks not yet consumed, in reverse index order; the tasks
  in \<open>to_schedule\<close> are distinct and have no future; the future of a task holds the outcome
  it completed with; and the results yielded are those of the first tasks, in index order.
\<close>

definition eager_inv :: "task list \<Rightarrow> 'r action list \<Rightarrow> 'r eager \<Rightarrow> bool" where
  "eager_inv tasks acts s =
     (to_yield s = rev [consumed s..<length tasks] \<and>
      consumed s \<le> length tasks \<and>
      distinct (to_schedule s) \<and>
      (\<forall>t \<in> set (to_schedule s). futures s t = None) \<and>
      (\<forall>t. completions acts t = outcomes (futures s t)) \<and>
      (\<forall>t < length (yielded s). \<exists>f. futures s t = Some f \<and> fut_result f = Some (Inr (yielded s ! t))))"

text \<open>
  The state in front of the iteration that starts task \<open>t\<close> when all earlier tasks have
  been yielded and no task is running.
\<close>

definition ready :: "worker list \<Rightarrow> nat \<Rightarrow> nat \<Rightarrow> 'r list \<Rightarrow> 'r eager \<Rightarrow> bool" where
  "ready workers n t ys s =
     (position s = LoopHead \<and> raised s = None \<and> to_schedule s = rev [t..<n] \<and>
      to_yield s = rev [t..<n] \<and> occupied s = {} \<and> workers_available s = length workers \<and>
      yielded s = ys)"

text \<open>
  A task without placement hints, and a run of one such task on two workers whose first
  execution fails.
\<close>

definition plain_task :: task where
  "plain_task = \<lparr>preferred_workers = None, allowed_workers = None\<rparr>"

definition failing_run :: "nat action list" where
  "failing_run = [Main, Complete 0 (Inl (InvocationException ''failed'')), Main]"

text \<open>
  A run of two such tasks on the single worker \<open>w\<close>. The first task is started and
  completes with the result 10. Its callback has released the permit but not yet removed
  the worker from \<open>occupied\<close> when the scheduling thread takes the permit for the second
  task and finds no free worker; then the callback ends and the first result is yielded.
  \<open>blocked_state\<close> is the state after this run.
\<close>

definition leaking_run :: "nat action list" where
  "leaking_run = [Main, Main, Complete 0 (Inr 10), Release 0, Main, Remove 0, Main]"

definition blocked_state :: "nat eager" where
  "blocked_state =
     \<lparr>occupied = {}, workers_available = 0, to_schedule = [1], to_yield = [1],
      task_counts = (\<lambda>w. 0)(''w'' := 1),
      futures = [0 \<mapsto> \<lparr>fut_worker = ''w'', fut_result = Some (Inr 10), fut_callback = Removed\<rparr>],
      yielded = [10], raised = None, position = LoopHead\<rparr>"

subsection \<open>Jobs\<close>

text \<open>
  Modelled from the spec: \<open>Lifecycle\<close> (bndl/util/lifecycle.py) is not among the sources.
  A job or stage is new, running, cancelled or stopped; \<open>signal_start\<close> and \<open>signal_stop\<close>
  mark it started and stopped and notify the listeners.
\<close>

record lifecycle =
  started :: bool
  stopped :: bool
  cancelled :: bool

definition running :: "lifecycle \<Rightarrow> bool" where
  "running l = (started l \<and> \<not> stopped l \<and> \<not> cancelled l)"

datatype signal = Start | Stop

text \<open>
  A stage as a job sees it: its id, its lifecycle, and what consuming its execution gives,
  the results its tasks yield and the exception that ends it, if any.
\<close>

record 'r stage =
  stage_id :: nat
  stage_lifecycle :: lifecycle
  stage_results :: "'r list"
  stage_error :: "py_error option"

record 'r job =
  job_lifecycle :: lifecycle
  job_signals :: "signal list"
  stages :: "'r stage list"

definition job_signal_start :: "'r job \<Rightarrow> 'r job" where
  "job_signal_start j =
     j\<lparr>job_lifecycle := (job_lifecycle j)\<lparr>started := True\<rparr>, job_signals := job_signals j @ [Start]\<rparr>"

definition job_signal_stop :: "'r job \<Rightarrow> 'r job" where
  "job_signal_stop j =
     j\<lparr>job_lifecycle := (job_lifecycle j)\<lparr>stopped := True\<rparr>, job_signals := job_signals j @ [Stop]\<rparr>"

text \<open>
  \<open>Stage.execute\<close>, consumed to its end: the stage signals start, is marked cancelled if
  its tasks raise, and signals stop in the \<open>finally\<close> clause.
\<close>

definition stage_execute :: "'r stage \<Rightarrow> 'r stage" where
  "stage_execute st =
     st\<lparr>stage_lifecycle :=
          \<lparr>started = True, stopped = True,
           cancelled = (cancelled (stage_lifecycle st) \<or> stage_error st \<noteq> None)\<rparr>\<rparr>"

text \<open>
  The listener \<open>Job._stage_done\<close>, called when a stage signals: the job signals stop when
  the stage is stopped and is the last one of the job (stages are equal when their ids
  are).
\<close>

definition stage_done :: "'r job \<Rightarrow> 'r stage \<Rightarrow> 'r job" where
  "stage_done j st =
     (if stopped (stage_lifecycle st) \<and> stages j \<noteq> [] \<and> stage_id st = stage_id (last (stages j))
      then job_signal_stop j else j)"

definition stage_cancel :: "'r stage \<Rightarrow> 'r stage" where
  "stage_cancel st = st\<lparr>stage_lifecycle := (stage_lifecycle st)\<lparr>cancelled := True\<rparr>\<rparr>"

text \<open>The \<open>finally\<close> clause of \<open>Job.execute\<close>: every stage that is not stopped is cancelled.\<close>

definition cancel_unstopped :: "'r stage list \<Rightarrow> 'r stage list" where
  "cancel_unstopped sts =
     map (\<lambda>st. if \<not> stopped (stage_lifecycle st) then stage_cancel st else st) sts"

text \<open>
  The loop \<open>for stage in self.stages\<close> of \<open>Job.execute\<close>, with a caller that consumes every
  stage it is handed before asking for the next. \<open>executed\<close> are the stages already executed,
  the list argument the stages still to come, \<open>ys\<close> the results consumed so far. When the
  tasks of a stage raise, the caller stops; closing the generator raises \<open>GeneratorExit\<close> at
  the \<open>yield\<close>, so the \<open>except\<close> clause signals stop.
\<close>

fun job_loop ::
  "'r job \<Rightarrow> 'r stage list \<Rightarrow> 'r stage list \<Rightarrow> 'r list list \<Rightarrow>
   'r job \<times> 'r stage list \<times> 'r list list \<times> py_error option" where
  "job_loop j executed [] ys = (j, executed, ys, None)"
| "job_loop j executed (st # rest) ys =
     (if \<not> running (job_lifecycle j) then (j, executed @ st # rest, ys, None)
      else
        (let st' = stage_execute st; j' = stage_done j st' in
         case stage_error st of
           Some e \<Rightarrow> (job_signal_stop j', executed @ st' # rest, ys @ [stage_results st], Some e)
         | None \<Rightarrow> job_loop j' (executed @ [st']) rest (ys @ [stage_results st])))"

text \<open>
  \<open>Job.execute\<close> consumed to its end: the results of the stages, the exception that ended
  the execution, if any, and the job afterwards.
\<close>

definition job_execute :: "'r job \<Rightarrow> 'r list list \<times> py_error option \<times> 'r job" where
  "job_execute j =
     (let (j', sts, ys, err) = job_loop (job_signal_start j) [] (stages j) []
      in (ys, err, j'\<lparr>stages := cancel_unstopped sts\<rparr>))"

definition new_job :: "'r stage list \<Rightarrow> 'r job" where
  "new_job sts =
     \<lparr>job_lifecycle = \<lparr>started = False, stopped = False, cancelled = False\<rparr>,
      job_signals = [], stages = sts\<rparr>"

section \<open>Properties of the block manager\<close>

subsection \<open>Splitting data into blocks\<close>

lemma split_loop_eq:
  "split_loop data step n offset blocks =
     (blocks @ map (\<lambda>i. take step (drop (offset + i * step) data)) [0..<n], offset + n * step)"
proof (induction n arbitrary: offset blocks)
  case 0
  then show ?case by simp
next
  case (Suc n)
  have "map (\<lambda>i. take step (drop (offset + i * step) data)) [0..<Suc n] =
        take step (drop offset data) # map (\<lambda>i. take step (drop (offset + step + i * step) data)) [0..<n]"
    by (simp add: upt_conv_Cons map_Suc_upt[symmetric] add.assoc del: upt_Suc)
  with Suc show ?case by (simp add: add.assoc del: upt_Suc)
qed

lemma concat_chunks:
  "concat (map (\<lambda>i. take step (drop (i * step) xs)) [0..<n]) = take (n * step) xs"
proof (induction n)
  case 0
  then show ?case by simp
next
  case (Suc n)
  have "take (n * step) xs @ take step (drop (n * step) xs) = take (n * step + step) xs"
    by (simp add: take_add)
  with Suc show ?case by (simp add: add.commute)
qed

lemma py_ceil_div_real:
  assumes "0 < b"
  shows "py_ceil_div a b = nat \<lceil>real a / real b\<rceil>"
proof -
  define q where "q = (a + b - 1) div b"
  have h1: "q * b \<le> a + b - 1" unfolding q_def by simp
  have h2: "a + b - 1 < q * b + b"
    unfolding q_def using assms by (metis add.commute dividend_less_times_div mult.commute)
  have le: "a \<le> q * b" using h2 assms by linarith
  have lt: "q * b < a + b" using h1 assms by linarith
  have "real a \<le> real q * real b" using le by (metis of_nat_le_iff of_nat_mult)
  then have up: "real a / real b \<le> real_of_int (int q)" using assms by (simp add: pos_divide_le_eq)
  have "real q * real b < real a + real b" using lt by (metis of_nat_less_iff of_nat_mult of_nat_add)
  then have "(real q - 1) * real b < real a" by (simp add: algebra_simps)
  then have lo: "real_of_int (int q) - 1 < real a / real b" using assms by (simp add: pos_less_divide_eq)
  have "\<lceil>real a / real b\<rceil> = int q" using lo up by (rule ceiling_unique)
  then show ?thesis unfolding py_ceil_div_def q_def by simp
qed

lemma num_blocks_ceiling:
  assumes "0 < B" "1 \<le> L"
  shows "(L - 1) div B + 1 = nat \<lceil>real L / real B\<rceil>"
proof -
  have "(L - 1) div B + 1 = (L + B - 1) div B"
    using assms by (metis Nat.add_diff_assoc2 div_add_self2 less_numeral_extra(3))
  then show ?thesis using py_ceil_div_real[OF assms(1), of L] by (simp add: py_ceil_div_def)
qed

lemma step_cover:
  assumes "0 < n"
  shows "L \<le> n * py_ceil_div L n"
proof -
  have "L + n - 1 < n * ((L + n - 1) div n) + n"
    using assms by (metis add.commute dividend_less_times_div)
  then show ?thesis unfolding py_ceil_div_def using assms by linarith
qed

lemma step_le:
  assumes "0 < B" "B < L"
  shows "py_ceil_div L ((L - 1) div B + 1) \<le> B"
proof -
  define p where "p = (L - 1) div B"
  have "L - 1 < (p + 1) * B"
    unfolding p_def using assms(1) by (metis Suc_eq_plus1 dividend_less_div_times mult.commute mult_Suc)
  then have "L + p < (p + 1) * (B + 1)" using assms by (simp add: algebra_simps)
  then have "(L + p) div (p + 1) < B + 1"
    by (simp add: less_mult_imp_div_less mult.commute)
  then show ?thesis unfolding py_ceil_div_def p_def[symmetric] by simp
qed

lemma parts_step_less:
  assumes "0 < B" "B < L"
  shows "((L - 1) div B) * py_ceil_div L ((L - 1) div B + 1) < L"
proof -
  have "((L - 1) div B) * py_ceil_div L ((L - 1) div B + 1) \<le> ((L - 1) div B) * B"
    using step_le[OF assms] by simp
  also have "\<dots> \<le> L - 1" by simp
  finally show ?thesis using assms by linarith
qed

lemma split_data_large:
  assumes "block_size < length data"
  shows "split_data data block_size =
     (let parts = (length data - 1) div block_size;
          step = py_ceil_div (length data) (parts + 1)
      in map (\<lambda>i. take step (drop (i * step) data)) [0..<parts] @ [drop (parts * step) data])"
  using assms by (simp add: split_data_def Let_def split_loop_eq py_int_div_def)

lemma split_data_small:
  assumes "length data \<le> block_size"
  shows "split_data data block_size = [data]"
  using assms by (simp add: split_data_def)

lemma split_data_length:
  assumes "0 < block_size" "1 \<le> length data"
  shows "length (split_data data block_size) = nat \<lceil>real (length data) / real block_size\<rceil>"
proof (cases "block_size < length data")
  case True
  then show ?thesis
    using num_blocks_ceiling[OF assms] by (simp add: split_data_large Let_def)
next
  case False
  then have "length data \<le> block_size" by simp
  moreover have "(length data - 1) div block_size = 0" using False assms by simp
  ultimately show ?thesis
    using num_blocks_ceiling[OF assms] by (simp add: split_data_small)
qed

lemma split_data_concat: "concat (split_data data block_size) = data"
proof (cases "block_size < length data")
  case True
  then show ?thesis by (simp add: split_data_large Let_def concat_chunks)
next
  case False
  then show ?thesis by (simp add: split_data_small)
qed

lemma split_data_butlast:
  assumes "0 < block_size"
  shows "list_all (\<lambda>b. length b \<le> block_size) (butlast (split_data data block_size))"
proof (cases "block_size < length data")
  case True
  have "py_ceil_div (length data) ((length data - 1) div block_size + 1) \<le> block_size"
    using step_le[OF assms True] .
  then show ?thesis using True
    by (simp add: split_data_large Let_def list_all_iff min_def)
next
  case False
  then show ?thesis by (simp add: split_data_small)
qed

lemma split_data_last:
  assumes "0 < block_size" "1 \<le> length data"
  shows "1 \<le> length (last (split_data data block_size)) \<and>
         length (last (split_data data block_size)) \<le> block_size"
proof (cases "block_size < length data")
  case True
  define p where "p = (length data - 1) div block_size"
  define step where "step = py_ceil_div (length data) (p + 1)"
  have a: "p * step < length data"
    unfolding p_def step_def using parts_step_less[OF assms(1) True] .
  have b: "length data \<le> (p + 1) * step"
    unfolding step_def using step_cover[of "p + 1" "length data"] by simp
  have c: "step \<le> block_size"
    unfolding p_def step_def using step_le[OF assms(1) True] .
  have "last (split_data data block_size) = drop (p * step) data"
    using True by (simp add: split_data_large Let_def p_def step_def)
  moreover have "1 \<le> length data - p * step" using a by simp
  moreover have "length data - p * step \<le> block_size" using b c by simp
  ultimately show ?thesis by simp
next
  case False
  then show ?thesis using assms by (simp add: split_data_small)
qed

text \<open>
  Claim C2. For data of at least one byte and a positive block size, \<open>serve_data\<close> does not
  raise and serves the blocks of \<open>split_data\<close>: there are
  \<open>\<lceil>len(data) / block_size\<rceil>\<close> of them, their concatenation in order is the data, every
  block but the last is at most \<open>block_size\<close> long, the last block has between one and
  \<open>block_size\<close> bytes, and a block size equal to the length of the data gives one block.
\<close>

theorem serve_data_splits:
  assumes "1 \<le> length data" and "0 < block_size"
  shows "serve_data name data block_size s = Inr (serve_blocks name (split_data data block_size) s) \<and>
    length (split_data data block_size) = nat \<lceil>real (length data) / real block_size\<rceil> \<and>
    concat (split_data data block_size) = data \<and>
    list_all (\<lambda>b. length b \<le> block_size) (butlast (split_data data block_size)) \<and>
    1 \<le> length (last (split_data data block_size)) \<and>
    length (last (split_data data block_size)) \<le> block_size \<and>
    (block_size = length data \<longrightarrow> length (split_data data block_size) = 1)"
  using assms split_data_length[of block_size data] split_data_concat[of data block_size]
    split_data_butlast[of block_size data] split_data_last[of block_size data]
  by (simp add: serve_data_def split_data_small)

theorem serve_data_splits_witness:
  "1 \<le> length [1, 2, 3, 4, 5, 6, 7 :: 8 word] \<and> 0 < (3::nat) \<and>
   split_data [1, 2, 3, 4, 5, 6, 7] 3 = [[1, 2, 3], [4, 5, 6], [7]] \<and>
   length (split_data [1, 2, 3, 4, 5, 6, 7] 3) = nat \<lceil>real (length [1, 2, 3, 4, 5, 6, 7 :: 8 word]) / real (3::nat)\<rceil> \<and>
   concat (split_data [1, 2, 3, 4, 5, 6, 7] 3) = [1, 2, 3, 4, 5, 6, 7] \<and>
   1 \<le> length (last (split_data [1, 2, 3, 4, 5, 6, 7] 3)) \<and>
   length (last (split_data [1, 2, 3, 4, 5, 6, 7] 3)) \<le> 3"
proof -
  have h: "1 \<le> length [1, 2, 3, 4, 5, 6, 7 :: 8 word]" "0 < (3::nat)" by simp_all
  have e: "split_data [1, 2, 3, 4, 5, 6, 7 :: 8 word] 3 = [[1, 2, 3], [4, 5, 6], [7]]"
    by code_simp
  from serve_data_splits[OF h, of "''x''" "\<lparr>bm_name = ''n'', bm_ip_addresses = [], bm_peers = Map.empty, blocks_cache = Map.empty, available_events = Map.empty\<rparr>"]
  have "length (split_data [1, 2, 3, 4, 5, 6, 7] 3) = nat \<lceil>real (length [1, 2, 3, 4, 5, 6, 7 :: 8 word]) / real (3::nat)\<rceil> \<and>
   concat (split_data [1, 2, 3, 4, 5, 6, 7] 3) = [1, 2, 3, 4, 5, 6, 7] \<and>
   1 \<le> length (last (split_data [1, 2, 3, 4, 5, 6, 7] 3)) \<and>
   length (last (split_data [1, 2, 3, 4, 5, 6, 7] 3)) \<le> 3"
    by blast
  with h e show ?thesis by blast
qed

text \<open>
  Claim C10. On empty data and a positive block size \<open>serve_data\<close> does not raise: the
  length \<open>0\<close> is not above the block size, so the data itself is the only block. The
  returned spec counts one block, the cache holds one empty block under the name and the
  availability event of the name exists and is set; the single block has length \<open>0\<close>.
\<close>

theorem serve_data_empty:
  assumes "0 < block_size"
  shows "serve_data name [] block_size s =
     Inr (\<lparr>bs_seeder = bm_name s, bs_name = name, bs_num_blocks = 1\<rparr>,
          s\<lparr>blocks_cache := (blocks_cache s)(name \<mapsto> [Some []]),
            available_events := (available_events s)(name \<mapsto> True)\<rparr>) \<and>
     split_data [] block_size = [[]] \<and> length (last (split_data [] block_size)) = 0"
  using assms by (simp add: serve_data_def serve_blocks_def split_data_def)

theorem serve_data_empty_witness:
  "0 < (4::nat) \<and>
   serve_data ''x'' [] 4 \<lparr>bm_name = ''n'', bm_ip_addresses = [], bm_peers = Map.empty, blocks_cache = Map.empty, available_events = Map.empty\<rparr> =
     Inr (\<lparr>bs_seeder = ''n'', bs_name = ''x'', bs_num_blocks = 1\<rparr>,
          \<lparr>bm_name = ''n'', bm_ip_addresses = [], bm_peers = Map.empty, blocks_cache = [''x'' \<mapsto> [Some []]],
           available_events = [''x'' \<mapsto> True]\<rparr>)"
proof -
  have h: "0 < (4::nat)" by simp
  show ?thesis
    using serve_data_empty[OF h, of "''x''" "\<lparr>bm_name = ''n'', bm_ip_addresses = [], bm_peers = Map.empty, blocks_cache = Map.empty, available_events = Map.empty\<rparr>"]
    by simp
qed

subsection \<open>Choosing and downloading blocks\<close>

lemma availability_append_keys:
  "fst ` set (availability_append av idx w) = insert idx (fst ` set av)"
  by (induction av idx w rule: availability_append.induct) auto

lemma collect_indices_keys:
  "keys_missing blocks (fst ` set av) \<Longrightarrow>
   keys_missing blocks (fst ` set (collect_indices blocks w idxs av))"
proof (induction blocks w idxs av rule: collect_indices.induct)
  case (1 blocks w availability)
  then show ?case by simp
next
  case (2 blocks w idx rest availability)
  show ?case
  proof (cases "idx < length blocks")
    case False
    then show ?thesis using "2.prems" by simp
  next
    case inrange: True
    show ?thesis
    proof (cases "blocks ! idx = None")
      case True
      have app: "keys_missing blocks (fst ` set (availability_append availability idx w))"
        using True inrange "2.prems" by (simp add: availability_append_keys keys_missing_def)
      have "keys_missing blocks (fst ` set (collect_indices blocks w rest (availability_append availability idx w)))"
        using inrange True app by (rule "2.IH"(1))
      then show ?thesis using True inrange by simp
    next
      case False
      have "keys_missing blocks (fst ` set (collect_indices blocks w rest availability))"
        using inrange False "2.prems" by (rule "2.IH"(2))
      then show ?thesis using False inrange by auto
    qed
  qed
qed

lemma collect_responses_keys:
  "keys_missing blocks (fst ` set av) \<Longrightarrow>
   keys_missing blocks (fst ` set (collect_responses blocks rs av))"
proof (induction blocks rs av rule: collect_responses.induct)
  case (1 blocks availability)
  then show ?case by simp
next
  case (2 blocks w e rs availability)
  then show ?case by simp
next
  case (3 blocks w idxs rs availability)
  have "keys_missing blocks (fst ` set (collect_indices blocks w idxs availability))"
    using "3.prems" by (rule collect_indices_keys)
  then have "keys_missing blocks (fst ` set (collect_responses blocks rs (collect_indices blocks w idxs availability)))"
    by (rule "3.IH")
  then show ?case by simp
qed

lemma set_insert_desc: "set (insert_desc lt key x ys) = insert x (set ys)"
  by (induction ys) auto

lemma set_sorted_reverse: "set (sorted_reverse lt key xs) = set xs"
  unfolding sorted_reverse_def by (induction xs) (simp_all add: set_insert_desc)

lemma next_download_missing:
  assumes "next_download s block_spec rs r = Inr (idx, candidates)"
    and "blocks_cache s (bs_name block_spec) = Some blocks"
  shows "idx < length blocks \<and> blocks ! idx = None"
proof (cases "sorted_reverse (py_list_lt peer_lt) snd (collect_responses blocks rs [])")
  case Nil
  define remaining where "remaining = filter (\<lambda>idx. blocks ! idx = None) [0..<length blocks]"
  from assms Nil have eq: "(case random_choice r remaining of Inl e \<Rightarrow> Inl e
      | Inr block_idx \<Rightarrow> (case bm_peers s (bs_seeder block_spec) of None \<Rightarrow> Inl KeyError
         | Some seeder \<Rightarrow> Inr (block_idx, [seeder]))) = Inr (idx, candidates)"
    by (simp add: next_download_def remaining_def)
  have ne: "remaining \<noteq> []"
    using eq by (auto simp: random_choice_def)
  have "idx = remaining ! (r mod length remaining)"
    using eq ne by (auto simp: random_choice_def split: option.splits)
  with ne
  have "idx \<in> set remaining" by simp
  then show ?thesis by (simp add: remaining_def)
next
  case (Cons item rest)
  with assms have "item = (idx, candidates)" by (simp add: next_download_def)
  then have "(idx, candidates) \<in> set (sorted_reverse (py_list_lt peer_lt) snd (collect_responses blocks rs []))"
    using Cons by simp
  then have "(idx, candidates) \<in> set (collect_responses blocks rs [])"
    by (simp only: set_sorted_reverse)
  then have mem: "idx \<in> fst ` set (collect_responses blocks rs [])"
    by (rule image_eqI[rotated]) simp
  have "keys_missing blocks (fst ` set (collect_responses blocks rs []))"
    by (rule collect_responses_keys) (simp add: keys_missing_def)
  then show ?thesis using mem unfolding keys_missing_def by (rule bspec)
qed

lemma missing_replicate: "missing (replicate n None) = n"
  by (simp add: missing_def)

lemma missing_zero: "missing blocks = 0 \<longleftrightarrow> None \<notin> set blocks"
  by (induction blocks) (auto simp: missing_def)

lemma missing_update:
  "idx < length blocks \<Longrightarrow> blocks ! idx = None \<Longrightarrow>
   Suc (missing (blocks[idx := Some b])) = missing blocks"
proof (induction blocks arbitrary: idx)
  case Nil
  then show ?case by simp
next
  case (Cons x xs)
  show ?case
  proof (cases idx)
    case 0
    then show ?thesis using Cons.prems by (simp add: missing_def)
  next
    case (Suc j)
    then have "Suc (missing (xs[j := Some b])) = missing xs"
      using Cons.prems by (intro Cons.IH) simp_all
    then show ?thesis using Suc by (simp add: missing_def)
  qed
qed

lemma missing_remaining:
  assumes "0 < missing blocks"
  shows "filter (\<lambda>idx. blocks ! idx = None) [0..<length blocks] \<noteq> []"
proof -
  from assms have "None \<in> set blocks" using missing_zero[of blocks] by auto
  then obtain i where "i < length blocks" "blocks ! i = None"
    by (auto simp: in_set_conv_nth)
  then have "i \<in> set (filter (\<lambda>idx. blocks ! idx = None) [0..<length blocks])" by simp
  then show ?thesis by (metis empty_iff empty_set)
qed

lemma next_download_returns:
  assumes "blocks_cache s (bs_name block_spec) = Some blocks"
    and "bm_peers s (bs_seeder block_spec) = Some seeder"
    and "0 < missing blocks"
  shows "\<exists>idx candidates. next_download s block_spec rs r = Inr (idx, candidates)"
proof (cases "sorted_reverse (py_list_lt peer_lt) snd (collect_responses blocks rs [])")
  case Nil
  then show ?thesis
    using assms(1,2) missing_remaining[OF assms(3)]
    by (simp add: next_download_def random_choice_def Let_def)
next
  case (Cons item rest)
  then show ?thesis using assms(1) by (cases item) (simp add: next_download_def)
qed

text \<open>
  When no response advertises a missing block, a missing index is drawn at random and the
  seeder is the only candidate.
\<close>

lemma next_download_no_advertiser:
  assumes "blocks_cache s (bs_name block_spec) = Some blocks"
    and "bm_peers s (bs_seeder block_spec) = Some seeder"
    and "collect_responses blocks rs [] = []"
    and "0 < missing blocks"
  shows "\<exists>idx. next_download s block_spec rs r = Inr (idx, [seeder]) \<and>
     idx < length blocks \<and> blocks ! idx = None"
proof -
  define remaining where "remaining = filter (\<lambda>idx. blocks ! idx = None) [0..<length blocks]"
  have ne: "remaining \<noteq> []" unfolding remaining_def using assms(4) by (rule missing_remaining)
  then have "remaining ! (r mod length remaining) \<in> set remaining" by simp
  then have "remaining ! (r mod length remaining) < length blocks \<and>
      blocks ! (remaining ! (r mod length remaining)) = None"
    by (simp add: remaining_def)
  moreover have "next_download s block_spec rs r = Inr (remaining ! (r mod length remaining), [seeder])"
    using assms(1,2,3) ne
    by (simp add: next_download_def sorted_reverse_def random_choice_def Let_def remaining_def)
  ultimately show ?thesis by blast
qed

lemma download_block_Inr:
  "download_block fetched idx blocks = Inr blocks' \<Longrightarrow>
   \<exists>b. blocks' = blocks[idx := Some b]"
  by (auto simp: download_block_def split: sum.splits if_splits)

lemma try_candidates_Some:
  "try_candidates env a local remote idx blocks = (Some blocks', a') \<Longrightarrow>
   \<exists>b. blocks' = blocks[idx := Some b]"
proof (induction env a local remote idx blocks rule: try_candidates.induct)
  case (1 env a local remote idx blocks)
  show ?case
  proof (cases "local = [] \<and> remote = []")
    case True
    then show ?thesis using "1.prems" by (subst (asm) try_candidates.simps) simp
  next
    case False
    define candidates where "candidates = (if local \<noteq> [] then local else remote)"
    define source where "source = candidates ! (pick env a mod length candidates)"
    define local' where "local' = (if local \<noteq> [] then remove1 source local else local)"
    define remote' where "remote' = (if local \<noteq> [] then remote else remove1 source remote)"
    show ?thesis
    proof (cases "download_block (fetch env a source idx) idx blocks")
      case (Inl e)
      then have "try_candidates env a local remote idx blocks =
          try_candidates env (Suc a) local' remote' idx blocks"
        using False
        by (subst try_candidates.simps)
           (simp add: Let_def candidates_def source_def local'_def remote'_def)
      then have "try_candidates env (Suc a) local' remote' idx blocks = (Some blocks', a')"
        using "1.prems" by simp
      then show ?thesis
        using "1.IH"[OF False candidates_def source_def local'_def remote'_def Inl] by simp
    next
      case (Inr blocks'')
      then have "try_candidates env a local remote idx blocks = (Some blocks'', Suc a)"
        using False
        by (subst try_candidates.simps)
           (simp add: Let_def candidates_def source_def local'_def remote'_def)
      then have "blocks'' = blocks'" using "1.prems" by simp
      then show ?thesis using download_block_Inr[OF Inr] by simp
    qed
  qed
qed

lemma download_round_fills:
  assumes cache: "blocks_cache s (bs_name block_spec) = Some blocks"
    and sd: "bm_peers s (bs_seeder block_spec) = Some seeder"
    and holds: "\<And>a idx. idx < length blocks \<Longrightarrow> \<exists>b. fetch env a seeder idx = Inr b"
    and miss: "0 < missing blocks"
  shows "\<exists>idx b. idx < length blocks \<and> blocks ! idx = None \<and>
     download_round env s block_spec =
       (None, s\<lparr>blocks_cache := (blocks_cache s)(bs_name block_spec \<mapsto> blocks[idx := Some b])\<rparr>)"
proof -
  obtain idx candidates where
    nd: "next_download s block_spec (responses env) (choice env) = Inr (idx, candidates)"
    using next_download_returns[OF cache sd miss] by blast
  have idx: "idx < length blocks \<and> blocks ! idx = None"
    using next_download_missing[OF nd cache] .
  define local where "local = filter (is_local s) candidates"
  define remote where "remote = filter (\<lambda>c. \<not> is_local s c) candidates"
  obtain res a where tc: "try_candidates env 0 local remote idx blocks = (res, a)"
    by (cases "try_candidates env 0 local remote idx blocks")
  show ?thesis
  proof (cases res)
    case None
    obtain b where b: "fetch env a seeder idx = Inr b" using holds idx by blast
    have "download_round env s block_spec =
       (None, s\<lparr>blocks_cache := (blocks_cache s)(bs_name block_spec \<mapsto> blocks[idx := Some b])\<rparr>)"
      using nd cache sd tc None b idx
      by (simp add: download_round_def Let_def local_def remote_def download_block_def)
    then show ?thesis using idx by blast
  next
    case (Some blocks')
    then obtain b where "blocks' = blocks[idx := Some b]"
      using try_candidates_Some tc by blast
    then have "download_round env s block_spec =
       (None, s\<lparr>blocks_cache := (blocks_cache s)(bs_name block_spec \<mapsto> blocks[idx := Some b])\<rparr>)"
      using nd cache tc Some
      by (simp add: download_round_def Let_def local_def remote_def)
    then show ?thesis using idx by blast
  qed
qed

lemma download_rounds_invariant:
  assumes sd: "bm_peers s (bs_seeder block_spec) = Some seeder"
    and holds: "seeder_holds env seeder (bs_num_blocks block_spec)"
    and k: "k \<le> bs_num_blocks block_spec"
  shows "\<exists>blocks. length blocks = bs_num_blocks block_spec \<and>
     missing blocks = bs_num_blocks block_spec - k \<and>
     download_rounds env block_spec k (download_start s block_spec) =
       (None, s\<lparr>blocks_cache := (blocks_cache s)(bs_name block_spec \<mapsto> blocks)\<rparr>)"
  using k
proof (induction k)
  case 0
  have "length (replicate (bs_num_blocks block_spec) (None :: bytes option)) = bs_num_blocks block_spec"
    by simp
  moreover have "missing (replicate (bs_num_blocks block_spec) None) = bs_num_blocks block_spec - 0"
    by (simp add: missing_replicate)
  moreover have "download_rounds env block_spec 0 (download_start s block_spec) =
       (None, s\<lparr>blocks_cache := (blocks_cache s)(bs_name block_spec \<mapsto> replicate (bs_num_blocks block_spec) None)\<rparr>)"
    by (simp add: download_start_def)
  ultimately show ?case by blast
next
  case (Suc k)
  have "k \<le> bs_num_blocks block_spec" using Suc.prems by simp
  from Suc.IH[OF this] obtain blocks where len: "length blocks = bs_num_blocks block_spec"
    and mis: "missing blocks = bs_num_blocks block_spec - k"
    and run: "download_rounds env block_spec k (download_start s block_spec) =
       (None, s\<lparr>blocks_cache := (blocks_cache s)(bs_name block_spec \<mapsto> blocks)\<rparr>)"
    by blast
  define s' where "s' = s\<lparr>blocks_cache := (blocks_cache s)(bs_name block_spec \<mapsto> blocks)\<rparr>"
  have cache: "blocks_cache s' (bs_name block_spec) = Some blocks" by (simp add: s'_def)
  have sd': "bm_peers s' (bs_seeder block_spec) = Some seeder" using sd by (simp add: s'_def)
  have h: "\<And>a idx. idx < length blocks \<Longrightarrow> \<exists>b. fetch (env k) a seeder idx = Inr b"
    using holds len by (simp add: seeder_holds_def)
  have pos: "0 < missing blocks" using mis Suc.prems by simp
  obtain idx b where idx: "idx < length blocks" "blocks ! idx = None"
    and round: "download_round (env k) s' block_spec =
       (None, s'\<lparr>blocks_cache := (blocks_cache s')(bs_name block_spec \<mapsto> blocks[idx := Some b])\<rparr>)"
    using download_round_fills[OF cache sd' h pos] by blast
  have "length (blocks[idx := Some b]) = bs_num_blocks block_spec" using len by simp
  moreover have "missing (blocks[idx := Some b]) = bs_num_blocks block_spec - Suc k"
    using missing_update[OF idx, of b] mis by simp
  moreover have "download_rounds env block_spec (Suc k) (download_start s block_spec) =
       (None, s\<lparr>blocks_cache := (blocks_cache s)(bs_name block_spec \<mapsto> blocks[idx := Some b])\<rparr>)"
    using run round by (simp add: s'_def)
  ultimately show ?case by blast
qed

lemma get_blocks_cached:
  assumes "entry_complete s block_spec"
  shows "\<exists>blocks. get_blocks env s block_spec = (Returns blocks, s) \<and>
     length blocks = bs_num_blocks block_spec \<and> None \<notin> set blocks"
  using assms by (auto simp: entry_complete_def get_blocks_def cache_lookup_def)

lemma get_blocks_downloads:
  assumes ne: "bs_seeder block_spec \<noteq> bm_name s"
    and sd: "bm_peers s (bs_seeder block_spec) = Some seeder"
    and holds: "seeder_holds env seeder (bs_num_blocks block_spec)"
    and fresh: "available_events s (bs_name block_spec) = None"
  shows "\<exists>blocks. length blocks = bs_num_blocks block_spec \<and> None \<notin> set blocks \<and>
     get_blocks env s block_spec =
       (Returns blocks,
        s\<lparr>available_events := (available_events s)(bs_name block_spec \<mapsto> True),
          blocks_cache := (blocks_cache s)(bs_name block_spec \<mapsto> blocks)\<rparr>)"
proof -
  define s1 where "s1 = s\<lparr>available_events := (available_events s)(bs_name block_spec \<mapsto> False)\<rparr>"
  have sd1: "bm_peers s1 (bs_seeder block_spec) = Some seeder" using sd by (simp add: s1_def)
  obtain blocks where len: "length blocks = bs_num_blocks block_spec"
    and mis: "missing blocks = bs_num_blocks block_spec - bs_num_blocks block_spec"
    and run: "download_rounds env block_spec (bs_num_blocks block_spec) (download_start s1 block_spec) =
       (None, s1\<lparr>blocks_cache := (blocks_cache s1)(bs_name block_spec \<mapsto> blocks)\<rparr>)"
    using download_rounds_invariant[OF sd1 holds order_refl] by blast
  have full: "None \<notin> set blocks" using mis missing_zero[of blocks] by simp
  have "download env s1 block_spec =
      (None, s1\<lparr>blocks_cache := (blocks_cache s1)(bs_name block_spec \<mapsto> blocks)\<rparr>)"
    using ne run by (simp add: download_def s1_def)
  then have "get_blocks env s block_spec =
       (Returns blocks,
        s\<lparr>available_events := (available_events s)(bs_name block_spec \<mapsto> True),
          blocks_cache := (blocks_cache s)(bs_name block_spec \<mapsto> blocks)\<rparr>)"
    using fresh by (simp add: get_blocks_def Let_def s1_def[symmetric] cache_lookup_def) (simp add: s1_def)
  then show ?thesis using len full by blast
qed

text \<open>
  Claim C7. Let the seeder of a block spec be a peer other than this node that holds all
  \<open>num_blocks\<close> blocks, and let the name either have no availability event yet (this call
  downloads) or be available already (this call reads the cache). Then \<open>get_blocks\<close> returns
  a sequence of length \<open>num_blocks\<close> without empty slots, which is the cache entry from then
  on. After \<open>_download\<close> has installed the list of empty slots and after each of its rounds,
  the cache entry of the name has length \<open>num_blocks\<close>.
\<close>

theorem get_blocks_complete:
  assumes "bs_seeder block_spec \<noteq> bm_name s"
    and "bm_peers s (bs_seeder block_spec) = Some seeder"
    and "seeder_holds env seeder (bs_num_blocks block_spec)"
    and "available_events s (bs_name block_spec) = None \<or> entry_complete s block_spec"
  shows "(\<exists>blocks s'. get_blocks env s block_spec = (Returns blocks, s') \<and>
       length blocks = bs_num_blocks block_spec \<and> None \<notin> set blocks \<and>
       blocks_cache s' (bs_name block_spec) = Some blocks \<and> entry_complete s' block_spec) \<and>
     (\<forall>k \<le> bs_num_blocks block_spec. \<exists>blocks s'.
       download_rounds env block_spec k (download_start s block_spec) = (None, s') \<and>
       blocks_cache s' (bs_name block_spec) = Some blocks \<and>
       length blocks = bs_num_blocks block_spec)"
proof
  show "\<exists>blocks s'. get_blocks env s block_spec = (Returns blocks, s') \<and>
       length blocks = bs_num_blocks block_spec \<and> None \<notin> set blocks \<and>
       blocks_cache s' (bs_name block_spec) = Some blocks \<and> entry_complete s' block_spec"
  proof (cases "entry_complete s block_spec")
    case True
    then obtain blocks where "blocks_cache s (bs_name block_spec) = Some blocks"
      "length blocks = bs_num_blocks block_spec" "None \<notin> set blocks"
      "available_events s (bs_name block_spec) = Some True"
      by (auto simp: entry_complete_def)
    moreover from this have "get_blocks env s block_spec = (Returns blocks, s)"
      by (simp add: get_blocks_def cache_lookup_def)
    ultimately show ?thesis using True by blast
  next
    case False
    then have fresh: "available_events s (bs_name block_spec) = None" using assms(4) by simp
    obtain blocks where b: "length blocks = bs_num_blocks block_spec" "None \<notin> set blocks"
      "get_blocks env s block_spec =
       (Returns blocks,
        s\<lparr>available_events := (available_events s)(bs_name block_spec \<mapsto> True),
          blocks_cache := (blocks_cache s)(bs_name block_spec \<mapsto> blocks)\<rparr>)"
      using get_blocks_downloads[OF assms(1,2,3) fresh] by blast
    define s' where "s' = s\<lparr>available_events := (available_events s)(bs_name block_spec \<mapsto> True),
          blocks_cache := (blocks_cache s)(bs_name block_spec \<mapsto> blocks)\<rparr>"
    have "blocks_cache s' (bs_name block_spec) = Some blocks" by (simp add: s'_def)
    moreover have "entry_complete s' block_spec" using b(1,2) by (simp add: s'_def entry_complete_def)
    ultimately show ?thesis using b unfolding s'_def[symmetric] by blast
  qed
next
  show "\<forall>k \<le> bs_num_blocks block_spec. \<exists>blocks s'.
       download_rounds env block_spec k (download_start s block_spec) = (None, s') \<and>
       blocks_cache s' (bs_name block_spec) = Some blocks \<and>
       length blocks = bs_num_blocks block_spec"
  proof (intro allI impI)
    fix k assume "k \<le> bs_num_blocks block_spec"
    from download_rounds_invariant[OF assms(2,3) this]
    obtain blocks where len: "length blocks = bs_num_blocks block_spec"
      and run: "download_rounds env block_spec k (download_start s block_spec) =
       (None, s\<lparr>blocks_cache := (blocks_cache s)(bs_name block_spec \<mapsto> blocks)\<rparr>)"
      by blast
    have "blocks_cache (s\<lparr>blocks_cache := (blocks_cache s)(bs_name block_spec \<mapsto> blocks)\<rparr>)
        (bs_name block_spec) = Some blocks" by simp
    with len run show "\<exists>blocks s'.
       download_rounds env block_spec k (download_start s block_spec) = (None, s') \<and>
       blocks_cache s' (bs_name block_spec) = Some blocks \<and>
       length blocks = bs_num_blocks block_spec" by blast
  qed
qed

theorem get_blocks_complete_witness:
  "bs_seeder example_spec \<noteq> bm_name example_manager \<and>
   bm_peers example_manager (bs_seeder example_spec) = Some example_seeder \<and>
   seeder_holds example_env example_seeder (bs_num_blocks example_spec) \<and>
   available_events example_manager (bs_name example_spec) = None \<and>
   fst (get_blocks example_env example_manager example_spec) = Returns [Some [0], Some [1]] \<and>
   (\<exists>blocks s'. get_blocks example_env example_manager example_spec = (Returns blocks, s') \<and>
      length blocks = 2 \<and> None \<notin> set blocks)"
proof -
  have h1: "bs_seeder example_spec \<noteq> bm_name example_manager"
    by (simp add: example_spec_def example_manager_def)
  have h2: "bm_peers example_manager (bs_seeder example_spec) = Some example_seeder"
    by (simp add: example_spec_def example_manager_def)
  have h3: "seeder_holds example_env example_seeder (bs_num_blocks example_spec)"
    by (simp add: seeder_holds_def example_env_def example_seeder_def)
  have h4: "available_events example_manager (bs_name example_spec) = None"
    by (simp add: example_spec_def example_manager_def)
  have ev: "fst (get_blocks example_env example_manager example_spec) = Returns [Some [0], Some [1]]"
    by code_simp
  have n: "bs_num_blocks example_spec = 2" by (simp add: example_spec_def)
  from get_blocks_complete[OF h1 h2 h3 disjI1[OF h4]]
  have "\<exists>blocks s'. get_blocks example_env example_manager example_spec = (Returns blocks, s') \<and>
      length blocks = 2 \<and> None \<notin> set blocks"
    unfolding n by blast
  with h1 h2 h3 h4 ev show ?thesis by blast
qed

text \<open>
  Claim C6. The comment in \<open>_next_download\<close> says that the block with the highest
  availability is selected, but the sort key \<open>itemgetter(1)\<close> is the list of workers itself,
  not its length: the items are ordered by comparing the worker lists element by element.
  Here worker 1 advertises block 0, workers 2 and 3 advertise block 1, and both blocks are
  missing. Block 1 has two advertisers, yet block 0 with its single advertiser is
  returned, because the list of worker 1 is the greatest of the two lists.
\<close>

theorem next_download_ignores_count:
  "collect_responses [None, None]
     [(example_worker 1, Inr [0]), (example_worker 2, Inr [1]), (example_worker 3, Inr [1])] [] =
     [(0, [example_worker 1]), (1, [example_worker 2, example_worker 3])] \<and>
   next_download (example_manager\<lparr>blocks_cache := [''x'' \<mapsto> [None, None]]\<rparr>) example_spec
     [(example_worker 1, Inr [0]), (example_worker 2, Inr [1]), (example_worker 3, Inr [1])] 0 =
     Inr (0, [example_worker 1])"
  by code_simp

section \<open>Properties of the node\<close>

subsection \<open>Starting the servers\<close>

lemma tcp_probe_in_use:
  assumes "\<forall>p. port \<le> p \<and> p < port + count \<longrightarrow> bind host p = AddrInUse" and "0 < count"
  shows "tcp_probe bind host port count = (None, port + count - 1)"
  using assms
proof (induction count arbitrary: port)
  case 0
  then show ?case by simp
next
  case (Suc count)
  have here: "bind host port = AddrInUse" using Suc.prems(1) by simp
  show ?case
  proof (cases "count = 0")
    case True
    then show ?thesis using here by simp
  next
    case False
    have "\<forall>p. Suc port \<le> p \<and> p < Suc port + count \<longrightarrow> bind host p = AddrInUse"
      using Suc.prems(1) by simp
    then have "tcp_probe bind host (Suc port) count = (None, Suc port + count - 1)"
      using False by (intro Suc.IH) simp_all
    then show ?thesis using here False by simp
  qed
qed

lemma start_tcp_server_in_use:
  assumes "\<forall>p. first_port parsed \<le> p \<and> p < first_port parsed + 1000 \<longrightarrow>
             bind_tcp env (u_hostname parsed) p = AddrInUse"
  shows "start_tcp_server env s address parsed = Inr s"
proof -
  have "tcp_probe (bind_tcp env) (u_hostname parsed) (first_port parsed) 1000 =
      (None, first_port parsed + 1000 - 1)"
    using assms by (intro tcp_probe_in_use) simp_all
  then show ?thesis by (simp add: start_tcp_server_def Let_def)
qed

text \<open>
  Claim C8, as amended. Starting a server for an address whose scheme is neither \<open>tcp\<close>
  nor \<open>unix\<close> raises \<open>ValueError\<close>, the exception the code uses for an unsupported scheme.
  A TCP address all of whose 1000 probed ports are in use does not raise:
  \<open>_start_tcp_server\<close> returns with no server and leaves the node as it was.
\<close>

theorem start_server_failures:
  "(u_scheme (urlparse address) \<noteq> ''tcp'' \<and> u_scheme (urlparse address) \<noteq> ''unix'' \<longrightarrow>
      start_server urlparse env s address =
        Inl (ValueError (''unsupported scheme '' @ u_scheme (urlparse address) @ '' in address '' @ address))) \<and>
   (u_scheme (urlparse address) = ''tcp'' \<and>
    (\<forall>p. first_port (urlparse address) \<le> p \<and> p < first_port (urlparse address) + 1000 \<longrightarrow>
         bind_tcp env (u_hostname (urlparse address)) p = AddrInUse) \<longrightarrow>
      start_server urlparse env s address = Inr s)"
  using start_tcp_server_in_use[of "urlparse address" env s address]
  by (simp add: start_server_def Let_def)

theorem start_server_failures_witness:
  "start_server example_urlparse example_os (example_node Map.empty) ''ftp://h'' =
     Inl (ValueError ''unsupported scheme http in address ftp://h'') \<and>
   first_port (example_urlparse ''tcp://h:5000'') = 5000 \<and>
   bind_tcp example_os ''h'' 5999 = AddrInUse \<and>
   start_server example_urlparse example_os (example_node Map.empty) ''tcp://h:5000'' =
     Inr (example_node Map.empty)"
proof -
  have a: "u_scheme (example_urlparse ''ftp://h'') \<noteq> ''tcp'' \<and> u_scheme (example_urlparse ''ftp://h'') \<noteq> ''unix''"
    by (simp add: example_urlparse_def)
  have b: "u_scheme (example_urlparse ''tcp://h:5000'') = ''tcp'' \<and>
    (\<forall>p. first_port (example_urlparse ''tcp://h:5000'') \<le> p \<and> p < first_port (example_urlparse ''tcp://h:5000'') + 1000 \<longrightarrow>
         bind_tcp example_os (u_hostname (example_urlparse ''tcp://h:5000'')) p = AddrInUse)"
    by (simp add: example_urlparse_def example_os_def)
  have c: "u_scheme (example_urlparse ''ftp://h'') = ''http''" by (simp add: example_urlparse_def)
  show ?thesis
    using start_server_failures[of example_urlparse "''ftp://h''" example_os "example_node Map.empty"] a
      start_server_failures[of example_urlparse "''tcp://h:5000''" example_os "example_node Map.empty"] b c
    by (simp add: first_port_def example_urlparse_def example_os_def)
qed

text \<open>
  With every port in use, \<open>_start_tcp_server\<close> returns normally, and the address still
  has no server.
\<close>

theorem start_tcp_server_exhausted_returns:
  "start_tcp_server example_os (example_node Map.empty) ''tcp://h:5000''
     (example_urlparse ''tcp://h:5000'') = Inr (example_node Map.empty) \<and>
   servers (example_node Map.empty) ''tcp://h:5000'' = Some None"
proof -
  have "start_tcp_server example_os (example_node Map.empty) ''tcp://h:5000''
     (example_urlparse ''tcp://h:5000'') = Inr (example_node Map.empty)"
    by (rule start_tcp_server_in_use) (simp add: example_os_def example_urlparse_def)
  then show ?thesis by (simp add: example_node_def)
qed

subsection \<open>The connection contest\<close>

text \<open>
  Claim C4. A connected peer named \<open>R\<close>, not the node's own name, is passed to
  \<open>_peer_connected\<close> while another connected peer object is in the table under \<open>R\<close>; the
  tiebreak keys of the two differ. Exactly one of the two connections survives: the one
  with the lower key is disconnected, with a reason that starts with
  \<open>already connected\<close>; the winner is the entry under \<open>R\<close> afterwards and is connected,
  so the table holds one record for \<open>R\<close> with one active connection; the entries under
  other names are untouched.
\<close>

theorem peer_connected_contest:
  assumes own: "n_name s \<noteq> p_name (objects s peer)"
    and known: "n_peers s (p_name (objects s peer)) = Some known_peer"
    and distinct: "known_peer \<noteq> peer"
    and new_conn: "p_is_connected (objects s peer)"
    and old_conn: "p_is_connected (objects s known_peer)"
    and keys: "p_key (objects s known_peer) \<noteq> p_key (objects s peer)"
  shows "\<exists>r s'. peer_connected s peer = Inr (r, s') \<and>
     (let new_loses = p_key (objects s peer) < p_key (objects s known_peer);
          loser = (if new_loses then peer else known_peer);
          winner = (if new_loses then known_peer else peer)
      in p_key (objects s loser) < p_key (objects s winner) \<and>
         disconnects s' = disconnects s @
           [(loser, if new_loses then ''already connected, old connection wins''
                    else ''already connected, new connection wins'')] \<and>
         n_peers s' (p_name (objects s peer)) = Some winner \<and>
         p_is_connected (objects s' winner) \<and>
         \<not> p_is_connected (objects s' loser) \<and>
         (\<forall>name. name \<noteq> p_name (objects s peer) \<longrightarrow> n_peers s' name = n_peers s name))"
proof (cases "p_key (objects s peer) < p_key (objects s known_peer)")
  case True
  then have "peer_lt (objects s known_peer) (objects s peer)" by (simp add: peer_lt_def)
  then have "peer_connected s peer =
      Inr (None, peer_disconnect s peer ''already connected, old connection wins'')"
    using own known new_conn old_conn by (simp add: peer_connected_def)
  then show ?thesis
    using True known distinct old_conn by (simp add: peer_disconnect_def)
next
  case False
  then have lower: "p_key (objects s known_peer) < p_key (objects s peer)" using keys by simp
  have "\<not> peer_lt (objects s known_peer) (objects s peer)" using False by (simp add: peer_lt_def)
  then have "peer_connected s peer =
      Inr (Some True,
        install_peer
          ((peer_disconnect s known_peer ''already connected, new connection wins'')
             \<lparr>n_peers := (n_peers s)(p_name (objects s peer) := None)\<rparr>) peer)"
    using own known new_conn old_conn distinct
    by (simp add: peer_connected_def Let_def peer_disconnect_def)
  then show ?thesis
    using False lower distinct new_conn by (simp add: peer_disconnect_def install_peer_def)
qed

theorem peer_connected_contest_witness:
  "n_name (example_node [''r'' \<mapsto> 1]) \<noteq> p_name (objects (example_node [''r'' \<mapsto> 1]) 2) \<and>
   n_peers (example_node [''r'' \<mapsto> 1]) (p_name (objects (example_node [''r'' \<mapsto> 1]) 2)) = Some 1 \<and>
   p_is_connected (objects (example_node [''r'' \<mapsto> 1]) 1) \<and>
   p_is_connected (objects (example_node [''r'' \<mapsto> 1]) 2) \<and>
   p_key (objects (example_node [''r'' \<mapsto> 1]) 1) < p_key (objects (example_node [''r'' \<mapsto> 1]) 2) \<and>
   (\<exists>r s'. peer_connected (example_node [''r'' \<mapsto> 1]) 2 = Inr (r, s') \<and>
      disconnects s' = [(1, ''already connected, new connection wins'')] \<and>
      n_peers s' ''r'' = Some 2 \<and> p_is_connected (objects s' 2) \<and> \<not> p_is_connected (objects s' 1))"
proof -
  let ?s = "example_node [''r'' \<mapsto> 1]"
  have h1: "n_name ?s \<noteq> p_name (objects ?s 2)"
    by (simp add: example_node_def example_objects_def)
  have h2: "n_peers ?s (p_name (objects ?s 2)) = Some 1"
    by (simp add: example_node_def example_objects_def)
  have h3: "(1::nat) \<noteq> 2" by simp
  have h4: "p_is_connected (objects ?s 2)" by (simp add: example_node_def example_objects_def)
  have h5: "p_is_connected (objects ?s 1)" by (simp add: example_node_def example_objects_def)
  have h6: "p_key (objects ?s 1) \<noteq> p_key (objects ?s 2)"
    by (simp add: example_node_def example_objects_def)
  have lt: "p_key (objects ?s 1) < p_key (objects ?s 2)"
    by (simp add: example_node_def example_objects_def)
  have nm: "p_name (objects ?s 2) = ''r''" by (simp add: example_node_def example_objects_def)
  have d: "disconnects ?s = []" by (simp add: example_node_def)
  from peer_connected_contest[OF h1 h2 h3 h4 h5 h6]
  have "\<exists>r s'. peer_connected ?s 2 = Inr (r, s') \<and>
      disconnects s' = [(1, ''already connected, new connection wins'')] \<and>
      n_peers s' ''r'' = Some 2 \<and> p_is_connected (objects s' 2) \<and> \<not> p_is_connected (objects s' 1)"
    using lt nm d by (simp add: Let_def) blast
  with h1 h2 h4 h5 lt show ?thesis by blast
qed

text \<open>
  Claim C5. The test \<open>self.name == peer.name\<close> is nested in \<open>if known_peer\<close>. When the
  table has no entry under the node's own name, a connection whose remote end reports that
  name is installed in the table and is not disconnected.
\<close>

theorem peer_connected_installs_self:
  "n_name (example_node Map.empty) = p_name (objects (example_node Map.empty) 3) \<and>
   peer_connected (example_node Map.empty) 3 = Inr (Some True, install_peer (example_node Map.empty) 3) \<and>
   n_peers (install_peer (example_node Map.empty) 3) (n_name (example_node Map.empty)) = Some 3 \<and>
   disconnects (install_peer (example_node Map.empty) 3) = [] \<and>
   p_is_connected (objects (install_peer (example_node Map.empty) 3) 3)"
  by (simp add: peer_connected_def install_peer_def example_node_def example_objects_def)

text \<open>With an entry under the node's own name, the self connection is disconnected.\<close>

lemma peer_connected_self_known:
  assumes "n_peers s (n_name s) = Some known_peer" and "p_name (objects s peer) = n_name s"
    and "p_is_connected (objects s peer)"
  shows "peer_connected s peer = Inr (None, peer_disconnect s peer ''self connect'')"
  using assms by (simp add: peer_connected_def)

section \<open>Properties of the job scheduler\<close>

subsection \<open>The invariant of eager execution\<close>

lemma eager_inv_init: "eager_inv tasks [] (init_eager workers tasks)"
  by (simp add: eager_inv_def init_eager_def consumed_def outcomes_def)

lemma completions_append:
  "completions (as @ bs) t = completions as t @ completions bs t"
  by (induction as t rule: completions.induct) simp_all

lemma eager_run_append:
  "eager_run workers tasks (as @ bs) s =
     (case eager_run workers tasks as s of None \<Rightarrow> None | Some s' \<Rightarrow> eager_run workers tasks bs s')"
  by (induction as arbitrary: s) (simp_all split: option.splits)

lemma last_rev_upt: "i < n \<Longrightarrow> last (rev [i..<n]) = i"
  by (simp add: last_rev hd_upt)

lemma butlast_rev_upt: "butlast (rev [i..<n]) = rev [Suc i..<n]"
proof (cases "i < n")
  case True
  then have "[i..<n] = i # [Suc i..<n]" by (simp add: upt_conv_Cons)
  then show ?thesis by (simp add: butlast_rev)
next
  case False
  then show ?thesis by simp
qed

lemma inv_schedule:
  assumes inv: "eager_inv tasks acts s" and st: "schedule_step workers tasks s = Some s'"
  shows "eager_inv tasks (acts @ [Main]) s'"
proof (cases "to_schedule s = []")
  case True
  then have "s' = s\<lparr>position := YieldCheck\<rparr>" using st by (simp add: schedule_step_def)
  then show ?thesis using inv by (simp add: eager_inv_def consumed_def completions_append)
next
  case False
  define t where "t = last (to_schedule s)"
  define s1 where "s1 = s\<lparr>workers_available := workers_available s - 1,
                     to_schedule := butlast (to_schedule s)\<rparr>"
  have tin: "t \<in> set (to_schedule s)" using False by (simp add: t_def)
  have tnone: "futures s t = None" using inv tin by (simp add: eager_inv_def)
  have split: "to_schedule s = butlast (to_schedule s) @ [t]" using False by (simp add: t_def)
  have dist: "distinct (butlast (to_schedule s))" "t \<notin> set (butlast (to_schedule s))"
    using inv split by (metis distinct_butlast eager_inv_def, metis distinct_append distinct.simps(2) disjoint_iff eager_inv_def list.set_intros(1))
  have sub: "set (butlast (to_schedule s)) \<subseteq> set (to_schedule s)"
    by (metis in_set_butlastD subsetI)
  show ?thesis
  proof (cases "choose_worker workers (tasks ! t) (occupied s1)")
    case None
    then have s': "s' = s1\<lparr>to_schedule := t # to_schedule s1, position := YieldCheck\<rparr>"
      using st False by (auto simp: schedule_step_def Let_def s1_def t_def split: if_splits)
    have "set (t # butlast (to_schedule s)) = set (to_schedule s)"
      using split by (metis Un_commute insert_is_Un list.simps(15) set_append empty_set)
    then show ?thesis using inv dist unfolding s'
      by (simp add: eager_inv_def consumed_def completions_append s1_def)
  next
    case (Some worker)
    then have s': "s' = (start_task worker t s1)\<lparr>position := YieldCheck\<rparr>"
      using st False by (auto simp: schedule_step_def Let_def s1_def t_def split: if_splits)
    define fs where "fs = (futures s)(t \<mapsto> \<lparr>fut_worker = worker, fut_result = None, fut_callback = NotCalled\<rparr>)"
    have a: "\<forall>t' \<in> set (butlast (to_schedule s)). fs t' = None"
      using inv dist sub by (auto simp: eager_inv_def fs_def)
    have b: "\<forall>t'. completions acts t' = outcomes (fs t')"
      using inv tnone by (simp add: eager_inv_def outcomes_def fs_def)
    have c: "\<forall>t' < length (yielded s). \<exists>f. fs t' = Some f \<and> fut_result f = Some (Inr (yielded s ! t'))"
      using inv tnone by (auto simp: eager_inv_def fs_def)
    have "s' = s\<lparr>workers_available := workers_available s - 1,
        to_schedule := butlast (to_schedule s), occupied := insert worker (occupied s),
        task_counts := (task_counts s)(worker := task_counts s worker + 1),
        futures := fs, position := YieldCheck\<rparr>"
      unfolding s' by (simp add: s1_def start_task_def fs_def)
    then show ?thesis using inv dist(1) a b c
      by (simp add: eager_inv_def consumed_def completions_append)
  qed
qed

lemma inv_position:
  "eager_inv tasks acts s \<Longrightarrow> eager_inv tasks (acts @ [Main]) (s\<lparr>position := p\<rparr>)"
  by (simp add: eager_inv_def consumed_def completions_append)

lemma inv_deliver:
  assumes inv: "eager_inv tasks acts s" and ne: "to_yield s \<noteq> []" and nr: "raised s = None"
    and f: "futures s (last (to_yield s)) = Some f" and r: "fut_result f = Some res"
  shows "eager_inv tasks (acts @ [Main]) (deliver res s)"
proof -
  define k where "k = length (yielded s)"
  have ty: "to_yield s = rev [k..<length tasks]"
    using inv nr by (simp add: eager_inv_def consumed_def k_def)
  then have klt: "k < length tasks" using ne by simp
  have head: "last (to_yield s) = k" using ty klt by (simp add: last_rev_upt)
  have bl: "butlast (to_yield s) = rev [Suc k..<length tasks]" using ty by (simp add: butlast_rev_upt)
  show ?thesis
  proof (cases res)
    case (Inl e)
    then have "deliver res s = s\<lparr>to_yield := rev [Suc k..<length tasks], raised := Some e, position := LoopHead\<rparr>"
      using bl by (simp add: deliver_def)
    then show ?thesis using inv klt nr
      by (simp add: eager_inv_def consumed_def completions_append k_def)
  next
    case (Inr v)
    then have d: "deliver res s = s\<lparr>to_yield := rev [Suc k..<length tasks], yielded := yielded s @ [v], position := LoopHead\<rparr>"
      using bl by (simp add: deliver_def)
    have "\<forall>t < Suc k. \<exists>f. futures s t = Some f \<and> fut_result f = Some (Inr ((yielded s @ [v]) ! t))"
    proof (intro allI impI)
      fix t assume "t < Suc k"
      show "\<exists>f. futures s t = Some f \<and> fut_result f = Some (Inr ((yielded s @ [v]) ! t))"
      proof (cases "t = k")
        case True
        then show ?thesis using f r head Inr by (simp add: k_def)
      next
        case False
        then have "t < length (yielded s)" using \<open>t < Suc k\<close> by (simp add: k_def)
        then show ?thesis using inv by (simp add: eager_inv_def nth_append)
      qed
    qed
    then show ?thesis using inv klt nr unfolding d
      by (simp add: eager_inv_def consumed_def completions_append k_def)
  qed
qed

lemma inv_yield:
  assumes inv: "eager_inv tasks acts s" and ne: "to_yield s \<noteq> []" and nr: "raised s = None"
    and st: "yield_step s = Some s'"
  shows "eager_inv tasks (acts @ [Main]) s'"
proof (cases "futures s (last (to_yield s))")
  case None
  then have "s' = s\<lparr>position := LoopHead\<rparr>" using st by (simp add: yield_step_def)
  then show ?thesis using inv by (simp add: inv_position)
next
  case (Some f)
  show ?thesis
  proof (cases "fut_result f")
    case None
    then have "s' = s\<lparr>position := LoopHead\<rparr>"
      using st Some by (simp add: yield_step_def split: if_splits)
    then show ?thesis using inv by (simp add: inv_position)
  next
    case (Some res)
    then have "s' = deliver res s"
      using st \<open>futures s (last (to_yield s)) = Some f\<close> by (simp add: yield_step_def split: if_splits)
    then show ?thesis using inv_deliver[OF inv ne nr \<open>futures s (last (to_yield s)) = Some f\<close> Some] by simp
  qed
qed

lemma inv_complete:
  assumes inv: "eager_inv tasks acts s" and f: "futures s t = Some f" and p: "fut_result f = None"
  shows "eager_inv tasks (acts @ [Complete t res])
           (s\<lparr>futures := (futures s)(t \<mapsto> f\<lparr>fut_result := Some res\<rparr>)\<rparr>)"
proof -
  define fs where "fs = (futures s)(t \<mapsto> f\<lparr>fut_result := Some res\<rparr>)"
  have a: "\<forall>t' \<in> set (to_schedule s). fs t' = None"
    using inv f by (auto simp: eager_inv_def fs_def)
  have b: "\<forall>t'. completions (acts @ [Complete t res]) t' = outcomes (fs t')"
    using inv f p by (auto simp: eager_inv_def fs_def completions_append outcomes_def)
  have c: "\<forall>t' < length (yielded s). \<exists>f'. fs t' = Some f' \<and> fut_result f' = Some (Inr (yielded s ! t'))"
    using inv f p by (auto simp: eager_inv_def fs_def)
  show ?thesis using inv a b c unfolding fs_def[symmetric]
    by (simp add: eager_inv_def consumed_def)
qed

lemma inv_callback:
  assumes inv: "eager_inv tasks acts s" and f: "futures s t = Some f"
    and a: "a = Release t \<or> a = Remove t"
  shows "eager_inv tasks (acts @ [a])
           (s\<lparr>workers_available := av, occupied := occ,
              futures := (futures s)(t \<mapsto> f\<lparr>fut_callback := c\<rparr>)\<rparr>)"
proof -
  define fs where "fs = (futures s)(t \<mapsto> f\<lparr>fut_callback := c\<rparr>)"
  have x: "\<forall>t' \<in> set (to_schedule s). fs t' = None"
    using inv f by (auto simp: eager_inv_def fs_def)
  have y: "\<forall>t'. completions (acts @ [a]) t' = outcomes (fs t')"
    using inv f a by (auto simp: eager_inv_def fs_def completions_append outcomes_def)
  have z: "\<forall>t' < length (yielded s). \<exists>f'. fs t' = Some f' \<and> fut_result f' = Some (Inr (yielded s ! t'))"
    using inv f by (auto simp: eager_inv_def fs_def)
  show ?thesis using inv x y z unfolding fs_def[symmetric]
    by (simp add: eager_inv_def consumed_def)
qed

lemma inv_step:
  assumes inv: "eager_inv tasks acts s" and st: "eager_step workers tasks a s = Some s'"
  shows "eager_inv tasks (acts @ [a]) s'"
proof (cases a)
  case Main
  then have ok: "raised s = None" "to_yield s \<noteq> []"
    using st by (auto simp: eager_step_def split: if_splits)
  show ?thesis
  proof (cases "position s")
    case LoopHead
    then have "schedule_step workers tasks s = Some s'"
      using st Main ok by (simp add: eager_step_def)
    then show ?thesis using inv_schedule[OF inv] Main by simp
  next
    case YieldCheck
    then have "yield_step s = Some s'"
      using st Main ok by (simp add: eager_step_def)
    then show ?thesis using inv_yield[OF inv ok(2) ok(1)] Main by simp
  qed
next
  case (Complete t res)
  then obtain f where f: "futures s t = Some f" "fut_result f = None"
    and s': "s' = s\<lparr>futures := (futures s)(t \<mapsto> f\<lparr>fut_result := Some res\<rparr>)\<rparr>"
    using st by (auto simp: eager_step_def split: option.splits if_splits)
  show ?thesis unfolding s' Complete using inv f by (rule inv_complete)
next
  case (Release t)
  then obtain f where f: "futures s t = Some f"
    and s': "s' = (task_done_release s)\<lparr>futures := (futures s)(t \<mapsto> f\<lparr>fut_callback := Released\<rparr>)\<rparr>"
    using st by (auto simp: eager_step_def split: option.splits if_splits)
  have "s' = s\<lparr>workers_available := workers_available s + 1, occupied := occupied s,
      futures := (futures s)(t \<mapsto> f\<lparr>fut_callback := Released\<rparr>)\<rparr>"
    unfolding s' by (simp add: task_done_release_def)
  moreover have "eager_inv tasks (acts @ [a])
      (s\<lparr>workers_available := workers_available s + 1, occupied := occupied s,
         futures := (futures s)(t \<mapsto> f\<lparr>fut_callback := Released\<rparr>)\<rparr>)"
    using inv f by (rule inv_callback) (simp add: Release)
  ultimately show ?thesis by simp
next
  case (Remove t)
  then obtain f where f: "futures s t = Some f"
    and s': "s' = (task_done_remove (fut_worker f) s)\<lparr>futures := (futures s)(t \<mapsto> f\<lparr>fut_callback := Removed\<rparr>)\<rparr>"
    using st by (auto simp: eager_step_def split: option.splits if_splits)
  have "s' = s\<lparr>workers_available := workers_available s, occupied := occupied s - {fut_worker f},
      futures := (futures s)(t \<mapsto> f\<lparr>fut_callback := Removed\<rparr>)\<rparr>"
    unfolding s' by (simp add: task_done_remove_def)
  moreover have "eager_inv tasks (acts @ [a])
      (s\<lparr>workers_available := workers_available s, occupied := occupied s - {fut_worker f},
         futures := (futures s)(t \<mapsto> f\<lparr>fut_callback := Removed\<rparr>)\<rparr>)"
    using inv f by (rule inv_callback) (simp add: Remove)
  ultimately show ?thesis by simp
qed

lemma inv_run:
  assumes "eager_run workers tasks acts (init_eager workers tasks) = Some s"
  shows "eager_inv tasks acts s"
  using assms
proof (induction acts arbitrary: s rule: rev_induct)
  case Nil
  then have "s = init_eager workers tasks" by simp
  then show ?case using eager_inv_init[of tasks workers] by simp
next
  case (snoc a acts)
  then obtain s0 where r: "eager_run workers tasks acts (init_eager workers tasks) = Some s0"
    and st: "eager_step workers tasks a s0 = Some s"
    by (auto simp: eager_run_append split: option.splits)
  have "eager_inv tasks acts s0" using snoc.IH[OF r] .
  then show ?case using st by (rule inv_step)
qed

lemma yielded_in_order:
  assumes "eager_run workers tasks acts (init_eager workers tasks) = Some s"
  shows "length (yielded s) \<le> length tasks \<and>
     (\<forall>t < length (yielded s). completions acts t = [Inr (yielded s ! t)]) \<and>
     (finished s \<longrightarrow> length (yielded s) = length tasks)"
proof -
  have inv: "eager_inv tasks acts s" using assms by (rule inv_run)
  have a: "length (yielded s) \<le> length tasks"
    using inv by (simp add: eager_inv_def consumed_def)
  have b: "\<forall>t < length (yielded s). completions acts t = [Inr (yielded s ! t)]"
  proof (intro allI impI)
    fix t assume "t < length (yielded s)"
    then obtain f where "futures s t = Some f" "fut_result f = Some (Inr (yielded s ! t))"
      using inv by (auto simp: eager_inv_def)
    moreover have "completions acts t = outcomes (futures s t)" using inv by (simp add: eager_inv_def)
    ultimately show "completions acts t = [Inr (yielded s ! t)]" by (simp add: outcomes_def)
  qed
  have c: "finished s \<longrightarrow> length (yielded s) = length tasks"
  proof
    assume fin: "finished s"
    then have "[length (yielded s)..<length tasks] = []"
      using inv by (simp add: eager_inv_def consumed_def finished_def)
    then have "length tasks \<le> length (yielded s)" by (auto simp: upt_eq_Nil_conv)
    then show "length (yielded s) = length tasks" using a by simp
  qed
  from a b c show ?thesis by blast
qed

subsection \<open>A complete execution exists\<close>

lemma choose_worker_free:
  assumes "workers \<noteq> []"
  shows "\<exists>worker. choose_worker workers t {} = Some worker"
proof -
  have "py_or (allowed_workers t) workers \<noteq> []"
    using assms by (simp add: py_or_def split: option.splits)
  then obtain w ws where "py_or (preferred_workers t) [] @ py_or (allowed_workers t) workers = w # ws"
    by (cases "py_or (preferred_workers t) [] @ py_or (allowed_workers t) workers") simp_all
  then show ?thesis by (simp add: choose_worker_def)
qed

lemma ready_round:
  assumes rd: "ready workers (length tasks) t ys s" and w: "workers \<noteq> []" and t: "t < length tasks"
  shows "\<exists>s'. eager_run workers tasks [Main, Complete t (Inr v), Release t, Remove t, Main] s = Some s' \<and>
     ready workers (length tasks) (Suc t) (ys @ [v]) s'"
proof -
  let ?n = "length tasks"
  have ts: "to_schedule s = rev [t..<?n]" and ty: "to_yield s = rev [t..<?n]"
    and pos: "position s = LoopHead" and nr: "raised s = None" and occ: "occupied s = {}"
    and av: "workers_available s = length workers" and ys: "yielded s = ys"
    using rd by (simp_all add: ready_def)
  have ne: "rev [t..<?n] \<noteq> []" using t by auto
  have la: "last (rev [t..<?n]) = t" using t by (rule last_rev_upt)
  have bl: "butlast (rev [t..<?n]) = rev [Suc t..<?n]" by (rule butlast_rev_upt)
  obtain worker where cw: "choose_worker workers (tasks ! t) {} = Some worker"
    using choose_worker_free[OF w] by blast
  define f0 :: "'a future" where "f0 = \<lparr>fut_worker = worker, fut_result = None, fut_callback = NotCalled\<rparr>"
  define s1 where "s1 = s\<lparr>workers_available := length workers - 1,
      to_schedule := rev [Suc t..<?n], occupied := {worker},
      task_counts := (task_counts s)(worker := task_counts s worker + 1),
      futures := (futures s)(t \<mapsto> f0), position := YieldCheck\<rparr>"
  have step1: "eager_step workers tasks Main s = Some s1"
    using ts ty pos nr occ av w ne la bl cw
    by (simp add: eager_step_def schedule_step_def Let_def start_task_def s1_def f0_def)
  define s2 where "s2 = s1\<lparr>futures := (futures s1)(t \<mapsto> f0\<lparr>fut_result := Some (Inr v)\<rparr>)\<rparr>"
  have step2: "eager_step workers tasks (Complete t (Inr v)) s1 = Some s2"
    by (simp add: eager_step_def s1_def s2_def f0_def)
  define s2r where "s2r = (task_done_release s2)\<lparr>futures :=
      (futures s2)(t \<mapsto> f0\<lparr>fut_result := Some (Inr v), fut_callback := Released\<rparr>)\<rparr>"
  have step3a: "eager_step workers tasks (Release t) s2 = Some s2r"
    by (simp add: eager_step_def s1_def s2_def s2r_def f0_def)
  define s3 where "s3 = (task_done_remove worker s2r)\<lparr>futures :=
      (futures s2r)(t \<mapsto> f0\<lparr>fut_result := Some (Inr v), fut_callback := Removed\<rparr>)\<rparr>"
  have step3b: "eager_step workers tasks (Remove t) s2r = Some s3"
    by (simp add: eager_step_def s1_def s2_def s2r_def s3_def f0_def task_done_release_def)
  have s3_fields: "position s3 = YieldCheck" "raised s3 = None" "to_yield s3 = rev [t..<?n]"
    "to_schedule s3 = rev [Suc t..<?n]" "occupied s3 = {}" "workers_available s3 = length workers"
    "yielded s3 = ys"
    "futures s3 t = Some (f0\<lparr>fut_result := Some (Inr v), fut_callback := Removed\<rparr>)"
    using ty nr ys w
    by (simp_all add: s3_def s2r_def s2_def s1_def task_done_release_def task_done_remove_def)
  have step4: "eager_step workers tasks Main s3 = Some (deliver (Inr v) s3)"
    using s3_fields ne la by (simp add: eager_step_def yield_step_def)
  have rd': "ready workers ?n (Suc t) (ys @ [v]) (deliver (Inr v) s3)"
    using s3_fields bl by (simp add: ready_def deliver_def)
  have "eager_run workers tasks [Main, Complete t (Inr v), Release t, Remove t, Main] s =
      Some (deliver (Inr v) s3)"
    using step1 step2 step3a step3b step4 by simp
  then show ?thesis using rd' by blast
qed

lemma ready_rounds:
  assumes w: "workers \<noteq> []"
  shows "k \<le> length tasks \<Longrightarrow>
     \<exists>s. eager_run workers tasks (one_by_one res k) (init_eager workers tasks) = Some s \<and>
       ready workers (length tasks) k (map res [0..<k]) s"
proof (induction k)
  case 0
  have "ready workers (length tasks) 0 [] (init_eager workers tasks)"
    by (simp add: ready_def init_eager_def)
  then show ?case by (simp add: one_by_one_def)
next
  case (Suc k)
  then obtain s where r: "eager_run workers tasks (one_by_one res k) (init_eager workers tasks) = Some s"
    and rd: "ready workers (length tasks) k (map res [0..<k]) s" by auto
  have k: "k < length tasks" using Suc.prems by simp
  obtain s' where r': "eager_run workers tasks [Main, Complete k (Inr (res k)), Release k, Remove k, Main] s = Some s'"
    and rd': "ready workers (length tasks) (Suc k) (map res [0..<k] @ [res k]) s'"
    using ready_round[OF rd w k] by blast
  have "one_by_one res (Suc k) = one_by_one res k @ [Main, Complete k (Inr (res k)), Release k, Remove k, Main]"
    by (simp add: one_by_one_def)
  then have "eager_run workers tasks (one_by_one res (Suc k)) (init_eager workers tasks) = Some s'"
    using r r' by (simp add: eager_run_append)
  then show ?case using rd' by auto
qed

lemma one_by_one_finishes:
  assumes "workers \<noteq> []"
  shows "\<exists>s. eager_run workers tasks (one_by_one res (length tasks)) (init_eager workers tasks) = Some s \<and>
     finished s \<and> yielded s = map res [0..<length tasks]"
proof -
  obtain s where r: "eager_run workers tasks (one_by_one res (length tasks)) (init_eager workers tasks) = Some s"
    and rd: "ready workers (length tasks) (length tasks) (map res [0..<length tasks]) s"
    using ready_rounds[OF assms order_refl] by blast
  have "finished s" using rd by (simp add: ready_def finished_def)
  then show ?thesis using r rd by (auto simp: ready_def)
qed

subsection \<open>Results in task order, failures, empty jobs\<close>

text \<open>
  What is yielded is always in task order: in every state that the eager execution
  reaches, whatever the order in which the futures complete and their callbacks run, the
  result at position \<open>t\<close> is the value with which the future of task \<open>t\<close> completed, and
  when the generator has returned there is one result per task. With a non-empty worker
  list the schedule that runs one task after the other ends with all results yielded.
\<close>

lemma yielded_prefix_in_task_order:
  assumes "workers \<noteq> []"
  shows "(\<forall>acts s. eager_run workers tasks acts (init_eager workers tasks) = Some s \<longrightarrow>
            length (yielded s) \<le> length tasks \<and>
            (\<forall>t < length (yielded s). completions acts t = [Inr (yielded s ! t)]) \<and>
            (finished s \<longrightarrow> length (yielded s) = length tasks)) \<and>
         (\<exists>s. eager_run workers tasks (one_by_one res (length tasks)) (init_eager workers tasks) = Some s \<and>
            finished s \<and> yielded s = map res [0..<length tasks])"
  using yielded_in_order[of workers tasks] one_by_one_finishes[OF assms, of tasks res] by blast

lemma leaking_run_blocked:
  "eager_run [''w''] [plain_task, plain_task] leaking_run (init_eager [''w''] [plain_task, plain_task])
     = Some blocked_state"
  by (simp add: leaking_run_def blocked_state_def init_eager_def eager_step_def schedule_step_def
      yield_step_def deliver_def start_task_def task_done_release_def task_done_remove_def
      choose_worker_def py_or_def plain_task_def Let_def upt_rec)

lemma blocked_state_stuck: "eager_step [''w''] [plain_task, plain_task] a blocked_state = None"
  by (cases a) (simp_all add: eager_step_def schedule_step_def blocked_state_def)

text \<open>
  Claim C1. Not every execution yields all results. \<open>workers_available.acquire()\<close> takes a
  permit for every task popped from \<open>to_schedule\<close>, and the permit is not given back when
  no worker is free and the task is put back; \<open>task_done\<close> releases a permit before it
  removes the worker from \<open>occupied\<close>. With one worker and two tasks, the scheduling thread
  can take the permit released for the first task while the worker still counts as
  occupied. After that the first result is yielded, the second task is never started, no
  future is pending, no permit is left and none will be released: the scheduling thread
  waits in \<open>acquire()\<close> for good, and the second result is never yielded.
\<close>

theorem execute_eagerly_blocks_after_first_result:
  "eager_run [''w''] [plain_task, plain_task] leaking_run (init_eager [''w''] [plain_task, plain_task])
     = Some blocked_state \<and>
   yielded blocked_state = [10] \<and> to_yield blocked_state = [1] \<and> \<not> finished blocked_state \<and>
   to_schedule blocked_state = [1] \<and> workers_available blocked_state = 0 \<and>
   occupied blocked_state = {} \<and> futures blocked_state 1 = None \<and>
   (\<forall>a. eager_run [''w''] [plain_task, plain_task] (leaking_run @ [a])
          (init_eager [''w''] [plain_task, plain_task]) = None)"
proof -
  have r: "eager_run [''w''] [plain_task, plain_task] leaking_run (init_eager [''w''] [plain_task, plain_task])
     = Some blocked_state" by (rule leaking_run_blocked)
  have "\<forall>a. eager_run [''w''] [plain_task, plain_task] (leaking_run @ [a])
          (init_eager [''w''] [plain_task, plain_task]) = None"
    using r by (simp add: eager_run_append blocked_state_stuck)
  then show ?thesis using r by (simp add: blocked_state_def finished_def)
qed

text \<open>After an exception has left the generator the scheduling thread does nothing more.\<close>

lemma raised_is_final: "raised s \<noteq> None \<Longrightarrow> eager_step workers tasks Main s = None"
  by (simp add: eager_step_def)

text \<open>
  Claim C3. \<open>_execute_eagerly\<close> starts every task at most once and has no notion of
  attempts. One task on two workers: the first execution, on worker \<open>w0\<close>, fails with a
  remote invocation error. The error is raised out of the generator when the result is
  asked for; nothing is yielded, the task is not dispatched to the free worker \<open>w1\<close>, and
  the scheduling thread cannot continue.
\<close>

theorem execute_eagerly_propagates_failure:
  "map_option (\<lambda>s. (yielded s, raised s, to_schedule s, to_yield s, task_counts s ''w0'', task_counts s ''w1''))
     (eager_run [''w0'', ''w1''] [plain_task] failing_run (init_eager [''w0'', ''w1''] [plain_task]))
   = Some ([], Some (InvocationException ''failed''), [], [], 1, 0) \<and>
   eager_run [''w0'', ''w1''] [plain_task] (failing_run @ [Main]) (init_eager [''w0'', ''w1''] [plain_task])
   = None"
  by code_simp

text \<open>
  Claim C9. A job without stages, executed and consumed: nothing is yielded and nothing
  is raised, but the job only signals start. \<open>signal_stop\<close> is reached from the \<open>except\<close>
  clause or from \<open>_stage_done\<close> for the last stage, and with no stage neither happens: the
  job stays running.
\<close>

theorem job_execute_no_stages:
  "fst (job_execute (new_job [])) = [] \<and>
   fst (snd (job_execute (new_job []))) = None \<and>
   job_signals (snd (snd (job_execute (new_job [])))) = [Start] \<and>
   running (job_lifecycle (snd (snd (job_execute (new_job []))))) \<and>
   \<not> stopped (job_lifecycle (snd (snd (job_execute (new_job [])))))"
  by (simp add: job_execute_def new_job_def job_signal_start_def running_def cancel_unstopped_def)

end
